theory Spec2Isabelle
  imports
    Complex_Main
    "HOL-Library.AList"
    "HOL-Library.List_Lexorder"
    "HOL-Library.Multiset"
    "HOL-Library.Sublist"
begin

section \<open>Session identifiers (vertex\_search/session.py)\<close>

text \<open>
  Session identifiers are modelled as \<^typ>\<open>string\<close>, one \<^typ>\<open>char\<close> per
  character: they are ASCII, the hexadecimal form of a UUID followed by the marker
  \<open>-\<close>. The strings read by the title pattern are lists of Unicode code points, see
  the analysis of search results below.
\<close>

definition endswith :: "string \<Rightarrow> string \<Rightarrow> bool" where
  \<comment> \<open>\<open>s.endswith(suf)\<close>\<close>
  "endswith s suf =
     (length suf \<le> length s \<and> drop (length s - length suf) s = suf)"

definition rstrip :: "string \<Rightarrow> char list \<Rightarrow> string" where
  \<comment> \<open>\<open>str.rstrip(chars)\<close>: drops every trailing character that occurs in \<open>chars\<close>\<close>
  "rstrip s chars = rev (dropWhile (\<lambda>c. c \<in> set chars) (rev s))"

definition is_new_session :: "string \<Rightarrow> bool" where
  \<comment> \<open>\<open>return session_id.endswith('-')\<close>\<close>
  "is_new_session session_id = endswith session_id ''-''"

definition get_clean_session_id :: "string \<Rightarrow> string" where
  \<comment> \<open>\<open>return session_id.rstrip('-')\<close>\<close>
  "get_clean_session_id session_id = rstrip session_id ''-''"

section \<open>The session store (vertex\_search/session.py)\<close>

text \<open>
  A \<open>datetime\<close> is represented by the number its \<open>timestamp()\<close> method returns
  (seconds since the epoch); the rounding of that number to a float is not modelled.
  The clock is an input: every operation that calls \<open>datetime.now()\<close> takes the value
  read as the argument \<open>now\<close>, and \<open>create_session\<close> takes the hexadecimal form of
  the UUID drawn by \<open>uuid.uuid4()\<close>.
\<close>

type_synonym datetime = real

datatype error = KeyError

text \<open>
  A turn is the dictionary
  \<open>{"query": {"queryId": query_id, "text": query}, "answer": answer_id,
  "timestamp": datetime.now().isoformat()}\<close>.
\<close>

record turn =
  query_queryId :: string
  query_text :: string
  answer :: string
  timestamp :: datetime

text \<open>
  Modelled from the spec: the class \<open>SessionInfo\<close> is declared in
  vertex\_search/models.py, which is not among the sources. Its fields are the ones
  session.py and client.py read and write; \<open>end_time\<close> is unset and the turn list is
  empty until the store sets them. The state is the string the source stores.
\<close>

record SessionInfo =
  session_id :: string
  user_pseudo_id :: "string option"
  start_time :: "datetime option"
  end_time :: "datetime option"
  state :: string
  turns :: "turn list"

text \<open>
  The two dictionaries of \<open>SessionManager\<close>. A Python dictionary keeps its keys in
  insertion order, so each is an association list: \<^const>\<open>AList.update\<close> overwrites the
  value of a key in place or appends a new key at the end, as \<open>d[k] = v\<close> does.
\<close>

record SessionManager =
  active_sessions :: "(string \<times> SessionInfo) list"
  session_history :: "(string \<times> turn list) list"

definition SessionManager_init :: SessionManager where
  \<comment> \<open>\<open>__init__\<close>: both dictionaries empty\<close>
  "SessionManager_init = \<lparr>active_sessions = [], session_history = []\<rparr>"

definition contains :: "'k \<Rightarrow> ('k \<times> 'v) list \<Rightarrow> bool" where
  \<comment> \<open>\<open>k in d\<close>\<close>
  "contains k d = (k \<in> set (map fst d))"

definition create_session ::
  "string \<Rightarrow> datetime \<Rightarrow> string option \<Rightarrow> SessionManager \<Rightarrow> string \<times> SessionManager" where
  "create_session uuid4_hex now user_id sm =
     (let sid = uuid4_hex @ ''-'';
          session_info = \<lparr>session_id = sid, user_pseudo_id = user_id,
                          start_time = Some now, end_time = None,
                          state = ''IN_PROGRESS'', turns = []\<rparr>
      in (sid, sm\<lparr>active_sessions := AList.update sid session_info (active_sessions sm),
                  session_history := AList.update sid [] (session_history sm)\<rparr>))"

definition get_session :: "SessionManager \<Rightarrow> string \<Rightarrow> SessionInfo option" where
  \<comment> \<open>\<open>self._active_sessions.get(session_id)\<close>\<close>
  "get_session sm sid = map_of (active_sessions sm) sid"

definition update_session ::
  "string \<Rightarrow> string \<Rightarrow> string \<Rightarrow> string \<Rightarrow> datetime \<Rightarrow> SessionManager
     \<Rightarrow> error + SessionManager" where
  \<comment> \<open>The subscript \<open>self._session_history[session_id]\<close> raises \<open>KeyError\<close> on a
      missing key; it is evaluated before anything is written.\<close>
  "update_session sid query query_id answer_id now sm =
     (if contains sid (active_sessions sm) then
        (case map_of (session_history sm) sid of
           None \<Rightarrow> Inl KeyError
         | Some h \<Rightarrow>
             let t = \<lparr>query_queryId = query_id, query_text = query, answer = answer_id,
                      timestamp = now\<rparr>;
                 h' = h @ [t]
             in Inr (sm\<lparr>session_history := AList.update sid h' (session_history sm),
                        active_sessions :=
                          AList.map_entry sid (\<lambda>i. i\<lparr>turns := h'\<rparr>) (active_sessions sm)\<rparr>))
      else Inr sm)"

definition end_session :: "string \<Rightarrow> datetime \<Rightarrow> SessionManager \<Rightarrow> SessionManager" where
  "end_session sid now sm =
     (if contains sid (active_sessions sm) then
        sm\<lparr>active_sessions :=
             AList.map_entry sid (\<lambda>i. i\<lparr>end_time := Some now, state := ''COMPLETED''\<rparr>)
               (active_sessions sm)\<rparr>
      else sm)"

definition get_session_history :: "SessionManager \<Rightarrow> string \<Rightarrow> turn list" where
  \<comment> \<open>\<open>self._session_history.get(session_id, [])\<close>\<close>
  "get_session_history sm sid =
     (case map_of (session_history sm) sid of None \<Rightarrow> [] | Some h \<Rightarrow> h)"

definition list_active_sessions :: "SessionManager \<Rightarrow> SessionInfo list" where
  "list_active_sessions sm =
     filter (\<lambda>session. state session = ''IN_PROGRESS'') (map snd (active_sessions sm))"

definition list_sessions_for_user :: "SessionManager \<Rightarrow> string \<Rightarrow> SessionInfo list" where
  "list_sessions_for_user sm user_id =
     filter (\<lambda>session. user_pseudo_id session = Some user_id) (map snd (active_sessions sm))"

definition older_than :: "datetime \<Rightarrow> SessionInfo \<Rightarrow> bool" where
  \<comment> \<open>\<open>session.start_time and session.start_time.timestamp() < cutoff_time\<close>\<close>
  "older_than cutoff_time session =
     (case start_time session of None \<Rightarrow> False | Some t \<Rightarrow> t < cutoff_time)"

definition sessions_to_remove :: "datetime \<Rightarrow> (string \<times> SessionInfo) list \<Rightarrow> string list" where
  \<comment> \<open>the first loop of \<open>cleanup_old_sessions\<close>\<close>
  "sessions_to_remove cutoff_time d =
     map fst (filter (\<lambda>(sid, session). older_than cutoff_time session) d)"

fun remove_sessions :: "string list \<Rightarrow> SessionManager \<Rightarrow> error + SessionManager" where
  \<comment> \<open>the second loop: \<open>del\<close> of a missing key raises \<open>KeyError\<close>\<close>
  "remove_sessions [] sm = Inr sm"
| "remove_sessions (sid # rest) sm =
     (if contains sid (active_sessions sm) then
        remove_sessions rest
          (sm\<lparr>active_sessions := AList.delete sid (active_sessions sm),
              session_history :=
                (if contains sid (session_history sm)
                 then AList.delete sid (session_history sm)
                 else session_history sm)\<rparr>)
      else Inl KeyError)"

definition cleanup_old_sessions ::
  "int \<Rightarrow> datetime \<Rightarrow> SessionManager \<Rightarrow> error + (nat \<times> SessionManager)" where
  "cleanup_old_sessions max_age_hours now sm =
     (let cutoff_time = now - of_int (max_age_hours * 3600);
          to_remove = sessions_to_remove cutoff_time (active_sessions sm)
      in case remove_sessions to_remove sm of
           Inl e \<Rightarrow> Inl e
         | Inr sm' \<Rightarrow> Inr (length to_remove, sm'))"

text \<open>
  \<open>VertexSearchClient.list_sessions\<close> (vertex\_search/client.py): a truthy user id
  selects \<open>list_sessions_for_user\<close>, \<open>None\<close> or the empty string selects
  \<open>list_active_sessions\<close>; each session is rendered as a dictionary.
\<close>

record session_dict =
  d_session_id :: string
  d_user_pseudo_id :: "string option"
  d_state :: string
  d_start_time :: "datetime option"
  d_end_time :: "datetime option"
  d_turns :: nat

definition session_to_dict :: "SessionInfo \<Rightarrow> session_dict" where
  "session_to_dict session =
     \<lparr>d_session_id = session_id session, d_user_pseudo_id = user_pseudo_id session,
      d_state = state session, d_start_time = start_time session,
      d_end_time = end_time session, d_turns = length (turns session)\<rparr>"

definition list_sessions :: "SessionManager \<Rightarrow> string option \<Rightarrow> session_dict list" where
  "list_sessions sm user_id =
     map session_to_dict
       (case user_id of
          None \<Rightarrow> list_active_sessions sm
        | Some u \<Rightarrow> if u = [] then list_active_sessions sm else list_sessions_for_user sm u)"

subsection \<open>Sequences of method calls\<close>

datatype call =
    Create_session string datetime "string option"
  | Update_session string string string string datetime
  | End_session string datetime
  | Cleanup_old_sessions int datetime
  | Get_session string
  | Get_session_history string
  | List_active_sessions
  | List_sessions_for_user string
  | Is_new_session string
  | Get_clean_session_id string

fun step :: "call \<Rightarrow> SessionManager \<Rightarrow> error + SessionManager" where
  \<comment> \<open>the store after one method call; the last six methods assign nothing to the store\<close>
  "step (Create_session uuid4_hex now user_id) sm = Inr (snd (create_session uuid4_hex now user_id sm))"
| "step (Update_session sid query query_id answer_id now) sm =
     update_session sid query query_id answer_id now sm"
| "step (End_session sid now) sm = Inr (end_session sid now sm)"
| "step (Cleanup_old_sessions max_age_hours now) sm =
     (case cleanup_old_sessions max_age_hours now sm of
        Inl e \<Rightarrow> Inl e | Inr (n, sm') \<Rightarrow> Inr sm')"
| "step (Get_session sid) sm = Inr sm"
| "step (Get_session_history sid) sm = Inr sm"
| "step List_active_sessions sm = Inr sm"
| "step (List_sessions_for_user user_id) sm = Inr sm"
| "step (Is_new_session sid) sm = Inr sm"
| "step (Get_clean_session_id sid) sm = Inr sm"

fun run :: "call list \<Rightarrow> SessionManager \<Rightarrow> error + SessionManager" where
  \<comment> \<open>a sequence of calls, stopping at the first exception\<close>
  "run [] sm = Inr sm"
| "run (c # cs) sm = (case step c sm of Inl e \<Rightarrow> Inl e | Inr sm' \<Rightarrow> run cs sm')"

section \<open>The SOW analysis of search results (vertex\_search/client.py)\<close>

subsection \<open>The title pattern\<close>

text \<open>
  A Python \<open>str\<close> that the analysis reads (a title, a content, a group key) is the
  list of its code points, each a natural number: the pattern sees code points of the
  whole of Unicode, and \<open>len\<close> and slicing count code points. \<open>ustr\<close> writes an
  ASCII literal of the source as such a list.
\<close>

type_synonym ustring = "nat list"

definition ustr :: "string \<Rightarrow> ustring" where
  "ustr s = map of_char s"

text \<open>
  The pattern is \<open>re.compile(r'(CHR_)?SOW[_\s#]*([0-9X]+)', re.IGNORECASE)\<close>, applied
  with \<open>search\<close>: the leftmost position at which it matches is taken, and group 2 is
  the identifier. Under \<open>IGNORECASE\<close> each letter of the pattern (\<open>C\<close>, \<open>H\<close>,
  \<open>R\<close>, \<open>S\<close>, \<open>O\<close>, \<open>W\<close>, and \<open>X\<close> in the class) matches its upper-case
  and its lower-case form; \<open>S\<close> matches the long s, U+017F, as well, and no other code
  point matches any of them. \<open>fold_case\<close> gives the form that is compared.
\<close>

definition fold_case :: "nat \<Rightarrow> nat" where
  \<comment> \<open>\<open>A\<close>..\<open>Z\<close> to \<open>a\<close>..\<open>z\<close>, and U+017F to \<open>s\<close>\<close>
  "fold_case c =
     (if 0x41 \<le> c \<and> c \<le> 0x5A then c + 0x20 else if c = 0x17F then 0x73 else c)"

definition is_space :: "nat \<Rightarrow> bool" where
  \<comment> \<open>the class \<open>\s\<close> of a \<open>str\<close> pattern: the code points that are white space
      in Unicode\<close>
  "is_space c =
     ((0x09 \<le> c \<and> c \<le> 0x0D) \<or> (0x1C \<le> c \<and> c \<le> 0x20) \<or> c = 0x85 \<or> c = 0xA0
      \<or> c = 0x1680 \<or> (0x2000 \<le> c \<and> c \<le> 0x200A) \<or> c = 0x2028 \<or> c = 0x2029
      \<or> c = 0x202F \<or> c = 0x205F \<or> c = 0x3000)"

definition is_sep :: "nat \<Rightarrow> bool" where
  \<comment> \<open>the class \<open>[_\s#]\<close>\<close>
  "is_sep c = (c = 0x5F \<or> is_space c \<or> c = 0x23)"

definition is_idchar :: "nat \<Rightarrow> bool" where
  \<comment> \<open>the class \<open>[0-9X]\<close> under \<open>IGNORECASE\<close>: the digits \<open>0\<close>..\<open>9\<close>, \<open>X\<close>
      and \<open>x\<close>\<close>
  "is_idchar c = ((0x30 \<le> c \<and> c \<le> 0x39) \<or> fold_case c = 0x78)"

fun match_literal :: "ustring \<Rightarrow> ustring \<Rightarrow> ustring option" where
  \<comment> \<open>a literal of the pattern at the start of the text; the rest of the text on success\<close>
  "match_literal [] s = Some s"
| "match_literal (p # ps) [] = None"
| "match_literal (p # ps) (c # cs) =
     (if fold_case c = fold_case p then match_literal ps cs else None)"

definition match_sow :: "ustring \<Rightarrow> ustring option" where
  \<comment> \<open>\<open>SOW[_\s#]*([0-9X]+)\<close> at the start of the text. Both repetitions are greedy;
      the two classes are disjoint and nothing follows the group, so giving back a
      separator or an identifier character never turns a failure into a match.\<close>
  "match_sow s =
     (case match_literal (ustr ''SOW'') s of
        None \<Rightarrow> None
      | Some s1 \<Rightarrow>
          let sow_num = takeWhile is_idchar (dropWhile is_sep s1)
          in if sow_num = [] then None else Some sow_num)"

definition match_here :: "ustring \<Rightarrow> ustring option" where
  \<comment> \<open>the whole pattern at the start of the text: the optional group \<open>(CHR_)?\<close> is
      tried first, and skipped when the rest does not match after it\<close>
  "match_here s =
     (case match_literal (ustr ''CHR_'') s of
        None \<Rightarrow> match_sow s
      | Some s1 \<Rightarrow> (case match_sow s1 of None \<Rightarrow> match_sow s | Some sow_num \<Rightarrow> Some sow_num))"

fun sow_search :: "ustring \<Rightarrow> ustring option" where
  \<comment> \<open>\<open>sow_pattern.search(title)\<close>, giving \<open>match.group(2)\<close>\<close>
  "sow_search [] = match_here []"
| "sow_search (c # cs) =
     (case match_here (c # cs) of None \<Rightarrow> sow_search cs | Some sow_num \<Rightarrow> Some sow_num)"

subsection \<open>Grouping the results\<close>

text \<open>
  Modelled from the spec: the class \<open>SearchResult\<close> is declared in
  vertex\_search/models.py, which is not among the sources. The fields are the ones
  \<open>extract_sows_from_results\<close> reads: a title, a content string, an optional link and
  an optional score, which is carried through unread.
\<close>

record SearchResult =
  title :: ustring
  content :: ustring
  uri :: "ustring option"
  score :: "real option"

record document =
  doc_title :: ustring
  link :: "ustring option"
  doc_content :: ustring
  doc_score :: "real option"

record sow_info =
  sow_number :: ustring
  documents :: "document list"
  primary_title :: ustring

definition content_preview :: "ustring \<Rightarrow> ustring" where
  \<comment> \<open>\<open>result.content[:200] + '...' if len(result.content) > 200 else result.content\<close>\<close>
  "content_preview c = (if length c > 200 then take 200 c @ ustr ''...'' else c)"

definition make_document :: "SearchResult \<Rightarrow> document" where
  \<comment> \<open>the dictionary literal that both branches of the loop append\<close>
  "make_document result =
     \<lparr>doc_title = title result, link = uri result,
      doc_content = content_preview (content result), doc_score = score result\<rparr>"

fun extract_loop ::
  "SearchResult list \<Rightarrow> (ustring \<times> sow_info) list \<Rightarrow> document list
     \<Rightarrow> (ustring \<times> sow_info) list \<times> document list" where
  \<comment> \<open>the loop \<open>for result in results\<close> over the dictionary \<open>sows\<close> and the list
      \<open>other_docs\<close>\<close>
  "extract_loop [] sows other_docs = (sows, other_docs)"
| "extract_loop (result # rest) sows other_docs =
     (case sow_search (title result) of
        Some sow_num \<Rightarrow>
          let sow_key = ustr ''SOW#'' @ sow_num;
              sows1 = (if \<not> contains sow_key sows
                       then AList.update sow_key
                              \<lparr>sow_number = sow_num, documents = [],
                               primary_title = title result\<rparr> sows
                       else sows);
              sows2 = AList.map_entry sow_key
                        (\<lambda>info. info\<lparr>documents := documents info @ [make_document result]\<rparr>)
                        sows1
          in extract_loop rest sows2 other_docs
      | None \<Rightarrow> extract_loop rest sows (other_docs @ [make_document result]))"

record sow_analysis =
  total_sows :: nat
  sows :: "(ustring \<times> sow_info) list"
  other_documents :: "document list"
  total_documents :: nat

definition extract_sows_from_results :: "SearchResult list \<Rightarrow> sow_analysis" where
  \<comment> \<open>\<open>dict(sorted(sows.items()))\<close> orders the groups by key; the keys of a
      dictionary are distinct, so the values are never compared\<close>
  "extract_sows_from_results results =
     (case extract_loop results [] [] of
        (sows_dict, other_docs) \<Rightarrow>
          \<lparr>total_sows = length sows_dict,
           sows = sort_key fst sows_dict,
           other_documents = other_docs,
           total_documents = length results\<rparr>)"

section \<open>Invariants\<close>

subsection \<open>The invariant of the store\<close>

definition store_inv :: "SessionManager \<Rightarrow> bool" where
  \<comment> \<open>keys are unique (as in any dictionary) and both dictionaries hold the same keys
      in the same order\<close>
  "store_inv sm =
     (distinct (map fst (active_sessions sm))
      \<and> map fst (session_history sm) = map fst (active_sessions sm))"

section \<open>Properties of the identifier functions\<close>

lemma endswith_dash: "endswith s ''-'' \<longleftrightarrow> s \<noteq> [] \<and> last s = CHR ''-''"
proof (cases s rule: rev_cases)
  case Nil
  then show ?thesis by (simp add: endswith_def)
next
  case (snoc ys y)
  then show ?thesis by (auto simp: endswith_def)
qed

lemma rstrip_dash_decomp:
  "\<exists>n. s = rstrip s ''-'' @ replicate n CHR ''-''"
proof -
  let ?p = "\<lambda>c. c = CHR ''-''"
  have "rev s = takeWhile ?p (rev s) @ dropWhile ?p (rev s)"
    by simp
  then have "s = rev (dropWhile ?p (rev s)) @ rev (takeWhile ?p (rev s))"
    by (metis rev_append rev_rev_ident)
  moreover have "\<forall>c \<in> set (rev (takeWhile ?p (rev s))). c = CHR ''-''"
    by (auto dest: set_takeWhileD)
  then have "rev (takeWhile ?p (rev s))
      = replicate (length (takeWhile ?p (rev s))) CHR ''-''"
    by (metis length_rev replicate_eqI)
  ultimately show ?thesis
    by (auto simp: rstrip_def)
qed

lemma rstrip_dash_not_endswith: "\<not> endswith (rstrip s ''-'') ''-''"
proof -
  let ?p = "\<lambda>c. c = CHR ''-''"
  let ?d = "dropWhile ?p (rev s)"
  have "?d = [] \<or> \<not> ?p (hd ?d)"
    using hd_dropWhile [of ?p "rev s"] by blast
  then have "rev ?d = [] \<or> last (rev ?d) \<noteq> CHR ''-''"
    by (auto simp: last_rev)
  then show ?thesis
    by (auto simp: endswith_dash rstrip_def)
qed

lemma rstrip_dash_fixed: "\<not> endswith s ''-'' \<Longrightarrow> rstrip s ''-'' = s"
proof (cases s rule: rev_cases)
  case Nil
  then show ?thesis by (simp add: rstrip_def)
next
  case (snoc ys y)
  assume "\<not> endswith s ''-''"
  with snoc have "y \<noteq> CHR ''-''" by (simp add: endswith_dash)
  with snoc show ?thesis by (simp add: rstrip_def)
qed

text \<open>
  C10. The confirmed form of any identifier is never provisional: all trailing markers
  are removed, not only one, and an identifier is returned unchanged exactly when it
  carries no trailing marker.
\<close>

theorem confirm_never_provisional:
  "\<not> is_new_session (get_clean_session_id s)
   \<and> (\<exists>n. s = get_clean_session_id s @ replicate n CHR ''-'')
   \<and> (get_clean_session_id s = s \<longleftrightarrow> \<not> is_new_session s)"
proof -
  have a: "\<not> is_new_session (get_clean_session_id s)"
    by (simp add: is_new_session_def get_clean_session_id_def rstrip_dash_not_endswith)
  have b: "\<exists>n. s = get_clean_session_id s @ replicate n CHR ''-''"
    by (simp add: get_clean_session_id_def rstrip_dash_decomp)
  have c: "get_clean_session_id s = s \<longleftrightarrow> \<not> is_new_session s"
    using a rstrip_dash_fixed [of s]
    by (auto simp: is_new_session_def get_clean_session_id_def)
  from a b c show ?thesis by blast
qed

theorem confirm_never_provisional_witness:
  "\<not> is_new_session (get_clean_session_id ''ab12--'')
   \<and> get_clean_session_id ''ab12--'' = ''ab12''
   \<and> is_new_session ''ab12--''"
  using confirm_never_provisional [of "''ab12--''"]
  by (simp add: get_clean_session_id_def rstrip_def is_new_session_def endswith_def)

section \<open>The store invariant is kept by every method\<close>

lemma map_fst_map_entry: "map fst (AList.map_entry k f xs) = map fst xs"
  by (induction xs) auto

lemma contains_iff_map_of: "contains k d \<longleftrightarrow> map_of d k \<noteq> None"
  by (simp add: contains_def map_of_eq_None_iff)

lemma store_inv_init: "store_inv SessionManager_init"
  by (simp add: store_inv_def SessionManager_init_def)

lemma store_inv_create: "store_inv sm \<Longrightarrow> store_inv (snd (create_session u now user sm))"
  by (simp add: store_inv_def create_session_def Let_def update_keys distinct_update)

lemma update_session_ok:
  assumes "store_inv sm"
  shows "\<exists>sm'. update_session sid q qid aid now sm = Inr sm'"
proof (cases "contains sid (active_sessions sm)")
  case False
  then show ?thesis by (simp add: update_session_def)
next
  case True
  with assms have "contains sid (session_history sm)"
    by (simp add: store_inv_def contains_def)
  then obtain h where "map_of (session_history sm) sid = Some h"
    by (auto simp: contains_iff_map_of)
  with True show ?thesis by (simp add: update_session_def Let_def)
qed

lemma store_inv_update:
  assumes "store_inv sm" "update_session sid q qid aid now sm = Inr sm'"
  shows "store_inv sm'"
proof (cases "contains sid (active_sessions sm)")
  case False
  with assms show ?thesis by (simp add: update_session_def)
next
  case True
  with assms(1) have c: "sid \<in> set (map fst (session_history sm))"
    by (simp add: store_inv_def contains_def)
  from True assms(2) obtain h where
    sm': "sm' = sm\<lparr>session_history := AList.update sid h (session_history sm),
                  active_sessions := AList.map_entry sid (\<lambda>i. i\<lparr>turns := h\<rparr>) (active_sessions sm)\<rparr>"
    by (auto simp: update_session_def Let_def split: option.splits)
  show ?thesis
    using assms(1) c unfolding sm' store_inv_def
    by (simp add: map_fst_map_entry update_keys)
qed

lemma store_inv_end: "store_inv sm \<Longrightarrow> store_inv (end_session sid now sm)"
  by (simp add: store_inv_def end_session_def map_fst_map_entry)

lemma delete_conv_filter: "AList.delete k xs = filter (\<lambda>p. fst p \<noteq> k) xs"
  by (induction xs) (auto simp: AList.delete_eq)

lemma filter_absent_key: "\<not> contains k xs \<Longrightarrow> filter (\<lambda>p. fst p \<noteq> k) xs = xs"
  by (induction xs) (auto simp: contains_def)

lemma remove_sessions_ok:
  "distinct rm \<Longrightarrow> set rm \<subseteq> set (map fst (active_sessions sm)) \<Longrightarrow>
   remove_sessions rm sm =
     Inr (sm\<lparr>active_sessions := filter (\<lambda>p. fst p \<notin> set rm) (active_sessions sm),
             session_history := filter (\<lambda>p. fst p \<notin> set rm) (session_history sm)\<rparr>)"
proof (induction rm arbitrary: sm)
  case Nil
  then show ?case by simp
next
  case (Cons sid rest)
  let ?sm = "sm\<lparr>active_sessions := AList.delete sid (active_sessions sm),
              session_history :=
                (if contains sid (session_history sm)
                 then AList.delete sid (session_history sm)
                 else session_history sm)\<rparr>"
  have h: "session_history ?sm = filter (\<lambda>p. fst p \<noteq> sid) (session_history sm)"
    by (simp add: delete_conv_filter filter_absent_key)
  have a: "active_sessions ?sm = filter (\<lambda>p. fst p \<noteq> sid) (active_sessions sm)"
    by (simp add: delete_conv_filter)
  from Cons.prems have c: "contains sid (active_sessions sm)"
    by (simp add: contains_def)
  have "set (map fst (active_sessions ?sm)) = set (map fst (active_sessions sm)) - {sid}"
    by (simp add: delete_keys)
  with Cons.prems have "distinct rest" "set rest \<subseteq> set (map fst (active_sessions ?sm))"
    by auto
  from Cons.IH [OF this] have
    "remove_sessions rest ?sm =
       Inr (?sm\<lparr>active_sessions := filter (\<lambda>p. fst p \<notin> set rest) (active_sessions ?sm),
             session_history := filter (\<lambda>p. fst p \<notin> set rest) (session_history ?sm)\<rparr>)" .
  also have "filter (\<lambda>p. fst p \<notin> set rest) (active_sessions ?sm)
      = filter (\<lambda>p. fst p \<notin> set (sid # rest)) (active_sessions sm)"
    unfolding a by (auto intro: filter_cong)
  also have "filter (\<lambda>p. fst p \<notin> set rest) (session_history ?sm)
      = filter (\<lambda>p. fst p \<notin> set (sid # rest)) (session_history sm)"
    unfolding h by (auto intro: filter_cong)
  finally show ?case using c by simp
qed

lemma sessions_to_remove_conv:
  "sessions_to_remove c d = map fst (filter (\<lambda>p. older_than c (snd p)) d)"
  by (simp add: sessions_to_remove_def case_prod_unfold)

lemma sessions_to_remove_distinct:
  "distinct (map fst d) \<Longrightarrow> distinct (sessions_to_remove c d)"
  by (simp add: sessions_to_remove_conv distinct_map_filter)

lemma sessions_to_remove_subset: "set (sessions_to_remove c d) \<subseteq> set (map fst d)"
  by (auto simp: sessions_to_remove_conv)

lemma key_removed_iff:
  assumes "distinct (map fst d)" "p \<in> set d"
  shows "fst p \<in> set (sessions_to_remove c d) \<longleftrightarrow> older_than c (snd p)"
proof
  assume "fst p \<in> set (sessions_to_remove c d)"
  then obtain q where q: "q \<in> set d" "older_than c (snd q)" "fst q = fst p"
    by (auto simp: sessions_to_remove_conv)
  with assms have "q = p"
    by (meson distinct_map inj_onD)
  with q show "older_than c (snd p)" by simp
next
  assume "older_than c (snd p)"
  with assms(2) show "fst p \<in> set (sessions_to_remove c d)"
    by (auto simp: sessions_to_remove_conv)
qed

lemma cleanup_old_sessions_ok:
  assumes "distinct (map fst (active_sessions sm))" and c: "c = now - of_int (h * 3600)"
  shows "cleanup_old_sessions h now sm =
     Inr (length (filter (\<lambda>p. older_than c (snd p)) (active_sessions sm)),
          sm\<lparr>active_sessions := filter (\<lambda>p. \<not> older_than c (snd p)) (active_sessions sm),
              session_history :=
                filter (\<lambda>p. fst p \<notin> set (sessions_to_remove c (active_sessions sm)))
                  (session_history sm)\<rparr>)"
proof -
  let ?rm = "sessions_to_remove c (active_sessions sm)"
  have r: "remove_sessions ?rm sm =
     Inr (sm\<lparr>active_sessions := filter (\<lambda>p. fst p \<notin> set ?rm) (active_sessions sm),
             session_history := filter (\<lambda>p. fst p \<notin> set ?rm) (session_history sm)\<rparr>)"
    using assms(1)
    by (intro remove_sessions_ok sessions_to_remove_distinct sessions_to_remove_subset)
  have f: "filter (\<lambda>p. fst p \<notin> set ?rm) (active_sessions sm)
      = filter (\<lambda>p. \<not> older_than c (snd p)) (active_sessions sm)"
    using assms(1) by (intro filter_cong refl) (simp add: key_removed_iff)
  have l: "length ?rm = length (filter (\<lambda>p. older_than c (snd p)) (active_sessions sm))"
    by (simp add: sessions_to_remove_conv)
  have "cleanup_old_sessions h now sm =
      (case remove_sessions ?rm sm of Inl e \<Rightarrow> Inl e | Inr sm' \<Rightarrow> Inr (length ?rm, sm'))"
    unfolding cleanup_old_sessions_def Let_def c ..
  then show ?thesis
    unfolding r f l by simp
qed

lemma store_inv_cleanup:
  assumes "store_inv sm" "cleanup_old_sessions h now sm = Inr (n, sm')"
  shows "store_inv sm'"
proof -
  define c where "c = now - of_int (h * 3600)"
  let ?rm = "sessions_to_remove c (active_sessions sm)"
  from assms(1) have d: "distinct (map fst (active_sessions sm))"
    and k: "map fst (session_history sm) = map fst (active_sessions sm)"
    by (simp_all add: store_inv_def)
  have f: "filter (\<lambda>p. \<not> older_than c (snd p)) (active_sessions sm)
      = filter (\<lambda>p. fst p \<notin> set ?rm) (active_sessions sm)"
    using d by (intro filter_cong refl) (simp add: key_removed_iff)
  from assms(2) cleanup_old_sessions_ok [OF d c_def]
  have sm': "sm' = sm\<lparr>active_sessions := filter (\<lambda>p. fst p \<notin> set ?rm) (active_sessions sm),
              session_history := filter (\<lambda>p. fst p \<notin> set ?rm) (session_history sm)\<rparr>"
    by (simp add: f)
  have "map fst (filter (\<lambda>p. fst p \<notin> set ?rm) (session_history sm))
      = filter (\<lambda>k. k \<notin> set ?rm) (map fst (session_history sm))"
    by (simp add: filter_map comp_def)
  also have "\<dots> = map fst (filter (\<lambda>p. fst p \<notin> set ?rm) (active_sessions sm))"
    by (simp add: k filter_map comp_def)
  finally show ?thesis
    using d unfolding sm' store_inv_def by (simp add: distinct_map_filter)
qed

lemma store_inv_step:
  assumes "store_inv sm" "step c sm = Inr sm'"
  shows "store_inv sm'"
proof (cases c)
  case (Create_session u now user)
  with assms show ?thesis by (auto simp: store_inv_create)
next
  case (Update_session sid q qid aid now)
  with assms show ?thesis by (auto intro: store_inv_update)
next
  case (End_session sid now)
  with assms show ?thesis by (auto simp: store_inv_end)
next
  case (Cleanup_old_sessions h now)
  with assms show ?thesis
    by (auto split: sum.splits intro: store_inv_cleanup)
qed (use assms in auto)

lemma step_ok:
  assumes "store_inv sm"
  shows "\<exists>sm'. step c sm = Inr sm'"
proof (cases c)
  case (Update_session sid q qid aid now)
  with update_session_ok [OF assms] show ?thesis by simp
next
  case (Cleanup_old_sessions h now)
  from assms have "distinct (map fst (active_sessions sm))"
    by (simp add: store_inv_def)
  from cleanup_old_sessions_ok [OF this refl, of h now] Cleanup_old_sessions
  show ?thesis by simp
qed simp_all

lemma run_store_inv:
  "store_inv sm \<Longrightarrow> run cs sm = Inr sm' \<Longrightarrow> store_inv sm'"
proof (induction cs arbitrary: sm)
  case Nil
  then show ?case by simp
next
  case (Cons c cs)
  from Cons.prems obtain sm1 where "step c sm = Inr sm1" "run cs sm1 = Inr sm'"
    by (auto split: sum.splits)
  with Cons.IH Cons.prems(1) show ?case
    by (blast intro: store_inv_step)
qed

lemma run_ok: "store_inv sm \<Longrightarrow> \<exists>sm'. run cs sm = Inr sm'"
proof (induction cs arbitrary: sm)
  case Nil
  then show ?case by simp
next
  case (Cons c cs)
  from step_ok [OF Cons.prems] obtain sm1 where s: "step c sm = Inr sm1" by blast
  with Cons.prems have "store_inv sm1" by (rule store_inv_step)
  from Cons.IH [OF this] s show ?case by simp
qed

lemma run_init_inv: "run cs SessionManager_init = Inr sm \<Longrightarrow> store_inv sm"
  using run_store_inv [OF store_inv_init] by blast

text \<open>
  C9. Every sequence of method calls on a fresh store runs without an exception, and in
  the store it reaches the active-session dictionary and the history dictionary have the
  same key set; so every stored session has a history entry, and \<open>update_session\<close>,
  whose subscript on the history is unguarded, never raises there.
\<close>

theorem active_history_same_keys:
  "\<exists>sm. run cs SessionManager_init = Inr sm
     \<and> set (map fst (active_sessions sm)) = set (map fst (session_history sm))
     \<and> (\<forall>sid query query_id answer_id now.
           \<exists>sm'. update_session sid query query_id answer_id now sm = Inr sm')"
proof -
  from run_ok [OF store_inv_init] obtain sm where r: "run cs SessionManager_init = Inr sm"
    by blast
  then have i: "store_inv sm" by (rule run_init_inv)
  then have "set (map fst (active_sessions sm)) = set (map fst (session_history sm))"
    by (simp add: store_inv_def)
  with r update_session_ok [OF i] show ?thesis by blast
qed

theorem active_history_same_keys_witness:
  "run [Create_session ''a1'' 5 None, Update_session ''a1-'' ''q'' ''q1'' ''answer_q1'' 6,
        Create_session ''b2'' 7 (Some ''u''), End_session ''a1-'' 8,
        Cleanup_old_sessions 0 7] SessionManager_init
     = Inr \<lparr>active_sessions =
              [(''b2-'', \<lparr>session_id = ''b2-'', user_pseudo_id = Some ''u'', start_time = Some 7,
                          end_time = None, state = ''IN_PROGRESS'', turns = []\<rparr>)],
            session_history = [(''b2-'', [])]\<rparr>"
  using active_history_same_keys
    [of "[Create_session ''a1'' 5 None, Update_session ''a1-'' ''q'' ''q1'' ''answer_q1'' 6,
        Create_session ''b2'' 7 (Some ''u''), End_session ''a1-'' 8,
        Cleanup_old_sessions 0 7]"]
  by (simp add: SessionManager_init_def create_session_def update_session_def end_session_def
      cleanup_old_sessions_def sessions_to_remove_def older_than_def contains_def AList.delete_eq Let_def)

section \<open>Ending, listing, recording and sweeping sessions\<close>

lemma get_session_end:
  "get_session (end_session sid now sm) k =
     (if k = sid then map_option (\<lambda>i. i\<lparr>end_time := Some now, state := ''COMPLETED''\<rparr>) (get_session sm sid)
      else get_session sm k)"
  by (auto simp: get_session_def end_session_def map_of_map_entry contains_iff_map_of
      split: option.splits)

text \<open>
  C2 (amended). \<open>end_session\<close> on a stored session, whatever its state, sets the state
  to \<open>COMPLETED\<close> and \<open>end_time\<close> to the time of the call, and changes no history. A
  second call does the same again: the state stays \<open>COMPLETED\<close> and \<open>end_time\<close>
  becomes the time of the second call. On an unknown id the store is unchanged.
\<close>

theorem end_session_overwrites_end_time:
  "(get_session sm sid = Some info \<longrightarrow>
      get_session (end_session sid now sm) sid
        = Some (info\<lparr>end_time := Some now, state := ''COMPLETED''\<rparr>)
      \<and> get_session (end_session sid now' (end_session sid now sm)) sid
        = Some (info\<lparr>end_time := Some now', state := ''COMPLETED''\<rparr>)
      \<and> session_history (end_session sid now sm) = session_history sm)
   \<and> (get_session sm sid = None \<longrightarrow> end_session sid now sm = sm)"
proof -
  have "end_session sid now sm = sm" if "get_session sm sid = None"
    using that by (simp add: end_session_def get_session_def contains_iff_map_of)
  moreover have "session_history (end_session sid now sm) = session_history sm"
    by (simp add: end_session_def)
  ultimately show ?thesis
    by (simp add: get_session_end)
qed

theorem end_session_overwrites_end_time_witness:
  "get_session (snd (create_session ''a1'' 5 None SessionManager_init)) ''a1-''
     = Some \<lparr>session_id = ''a1-'', user_pseudo_id = None, start_time = Some 5,
             end_time = None, state = ''IN_PROGRESS'', turns = []\<rparr>
   \<and> get_session (end_session ''a1-'' 6 (snd (create_session ''a1'' 5 None SessionManager_init))) ''a1-''
     = Some \<lparr>session_id = ''a1-'', user_pseudo_id = None, start_time = Some 5,
             end_time = Some 6, state = ''COMPLETED'', turns = []\<rparr>
   \<and> get_session (snd (create_session ''a1'' 5 None SessionManager_init)) ''zz'' = None
   \<and> end_session ''zz'' 6 (snd (create_session ''a1'' 5 None SessionManager_init))
     = snd (create_session ''a1'' 5 None SessionManager_init)"
proof -
  have h: "get_session (snd (create_session ''a1'' 5 None SessionManager_init)) ''a1-''
     = Some \<lparr>session_id = ''a1-'', user_pseudo_id = None, start_time = Some 5,
             end_time = None, state = ''IN_PROGRESS'', turns = []\<rparr>"
    by (simp add: get_session_def create_session_def SessionManager_init_def Let_def)
  have n: "get_session (snd (create_session ''a1'' 5 None SessionManager_init)) ''zz'' = None"
    by (simp add: get_session_def create_session_def SessionManager_init_def Let_def)
  from h n
    end_session_overwrites_end_time [of "snd (create_session ''a1'' 5 None SessionManager_init)"
      "''a1-''" "\<lparr>session_id = ''a1-'', user_pseudo_id = None, start_time = Some 5,
             end_time = None, state = ''IN_PROGRESS'', turns = []\<rparr>" 6 6]
    end_session_overwrites_end_time [of "snd (create_session ''a1'' 5 None SessionManager_init)"
      "''zz''" _ 6]
  show ?thesis by simp
qed

theorem end_session_twice_counterexample:
  "map_option state (get_session (snd (create_session ''a1'' 5 None SessionManager_init)) ''a1-'')
     = Some ''IN_PROGRESS''
   \<and> map_option end_time
        (get_session (end_session ''a1-'' 6 (snd (create_session ''a1'' 5 None SessionManager_init))) ''a1-'')
     = Some (Some 6)
   \<and> map_option end_time
        (get_session (end_session ''a1-'' 9
            (end_session ''a1-'' 6 (snd (create_session ''a1'' 5 None SessionManager_init)))) ''a1-'')
     = Some (Some 9)
   \<and> end_session ''a1-'' 9
            (end_session ''a1-'' 6 (snd (create_session ''a1'' 5 None SessionManager_init)))
     \<noteq> end_session ''a1-'' 6 (snd (create_session ''a1'' 5 None SessionManager_init))"
  by (simp add: get_session_def end_session_def create_session_def SessionManager_init_def
      Let_def contains_def)

lemma stored_sessions_conv:
  assumes "distinct (map fst d)"
  shows "set (map snd d) = {v. \<exists>k. map_of d k = Some v}"
  using assms by (auto simp: image_iff intro: map_of_SomeD) (metis map_of_eq_Some_iff prod.collapse snd_conv)

text \<open>
  C4 (amended). In every store reached by method calls, \<open>list_sessions_for_user\<close>
  returns exactly the stored sessions whose user id is the given one, in any state
  (\<open>COMPLETED\<close> sessions included); \<open>list_active_sessions\<close> returns exactly the stored
  sessions in state \<open>IN_PROGRESS\<close>. The client's \<open>list_sessions\<close> renders the first
  list for a non-empty user id and the second for \<open>None\<close> or the empty string.
\<close>

theorem list_sessions_for_user_any_state:
  assumes "run cs SessionManager_init = Inr sm"
  shows "set (list_sessions_for_user sm u)
           = {session. \<exists>sid. get_session sm sid = Some session \<and> user_pseudo_id session = Some u}
         \<and> set (list_active_sessions sm)
           = {session. \<exists>sid. get_session sm sid = Some session \<and> state session = ''IN_PROGRESS''}
         \<and> list_sessions sm None = map session_to_dict (list_active_sessions sm)
         \<and> list_sessions sm (Some []) = map session_to_dict (list_active_sessions sm)
         \<and> (u \<noteq> [] \<longrightarrow> list_sessions sm (Some u) = map session_to_dict (list_sessions_for_user sm u))"
proof -
  from assms have "store_inv sm" by (rule run_init_inv)
  then have "distinct (map fst (active_sessions sm))" by (simp add: store_inv_def)
  from stored_sessions_conv [OF this]
  have s: "set (map snd (active_sessions sm)) = {v. \<exists>k. get_session sm k = Some v}"
    by (simp add: get_session_def)
  have "set (list_sessions_for_user sm u)
      = {session. \<exists>sid. get_session sm sid = Some session \<and> user_pseudo_id session = Some u}"
    unfolding list_sessions_for_user_def set_filter s by blast
  moreover have "set (list_active_sessions sm)
      = {session. \<exists>sid. get_session sm sid = Some session \<and> state session = ''IN_PROGRESS''}"
    unfolding list_active_sessions_def set_filter s by blast
  ultimately show ?thesis
    by (simp add: list_sessions_def)
qed

theorem list_sessions_for_user_any_state_witness:
  "run [Create_session ''a1'' 5 (Some ''u''), End_session ''a1-'' 6] SessionManager_init
     = Inr \<lparr>active_sessions =
              [(''a1-'', \<lparr>session_id = ''a1-'', user_pseudo_id = Some ''u'', start_time = Some 5,
                          end_time = Some 6, state = ''COMPLETED'', turns = []\<rparr>)],
            session_history = [(''a1-'', [])]\<rparr>
   \<and> set (list_sessions_for_user
        \<lparr>active_sessions =
              [(''a1-'', \<lparr>session_id = ''a1-'', user_pseudo_id = Some ''u'', start_time = Some 5,
                          end_time = Some 6, state = ''COMPLETED'', turns = []\<rparr>)],
            session_history = [(''a1-'', [])]\<rparr> ''u'')
      = {session. \<exists>sid. get_session
        \<lparr>active_sessions =
              [(''a1-'', \<lparr>session_id = ''a1-'', user_pseudo_id = Some ''u'', start_time = Some 5,
                          end_time = Some 6, state = ''COMPLETED'', turns = []\<rparr>)],
            session_history = [(''a1-'', [])]\<rparr> sid = Some session
            \<and> user_pseudo_id session = Some ''u''}"
proof -
  have r: "run [Create_session ''a1'' 5 (Some ''u''), End_session ''a1-'' 6] SessionManager_init
     = Inr \<lparr>active_sessions =
              [(''a1-'', \<lparr>session_id = ''a1-'', user_pseudo_id = Some ''u'', start_time = Some 5,
                          end_time = Some 6, state = ''COMPLETED'', turns = []\<rparr>)],
            session_history = [(''a1-'', [])]\<rparr>"
    by (simp add: SessionManager_init_def create_session_def end_session_def contains_def Let_def)
  from r list_sessions_for_user_any_state [OF r, of "''u''"] show ?thesis
    by blast
qed

theorem list_sessions_completed_counterexample:
  "map state (list_sessions_for_user
      (end_session ''a1-'' 6 (snd (create_session ''a1'' 5 (Some ''u'') SessionManager_init))) ''u'')
     = [''COMPLETED'']
   \<and> map d_state (list_sessions
      (end_session ''a1-'' 6 (snd (create_session ''a1'' 5 (Some ''u'') SessionManager_init)))
      (Some ''u''))
     = [''COMPLETED'']"
  by (simp add: list_sessions_def list_sessions_for_user_def session_to_dict_def end_session_def
      create_session_def SessionManager_init_def Let_def contains_def)

lemma get_session_history_update:
  assumes "update_session sid q qid aid now sm = Inr sm'" "contains sid (active_sessions sm)"
  shows "get_session_history sm' k =
     (if k = sid then get_session_history sm sid
         @ [\<lparr>query_queryId = qid, query_text = q, answer = aid, timestamp = now\<rparr>]
      else get_session_history sm k)"
  using assms
  by (auto simp: update_session_def get_session_history_def Let_def update_conv
      split: option.splits)

text \<open>
  C6. In every store reached by method calls, \<open>update_session\<close> on a stored session id
  returns without an exception, its history is the old history followed by the new
  turn (one entry longer, the new turn last); on an id that is not stored the store is
  returned unchanged and nothing is raised.
\<close>

theorem update_session_appends_one_turn:
  assumes "run cs SessionManager_init = Inr sm"
  shows "(get_session sm sid \<noteq> None \<longrightarrow>
           (\<exists>sm'. update_session sid q qid aid now sm = Inr sm'
              \<and> get_session_history sm' sid
                 = get_session_history sm sid
                   @ [\<lparr>query_queryId = qid, query_text = q, answer = aid, timestamp = now\<rparr>]
              \<and> length (get_session_history sm' sid) = length (get_session_history sm sid) + 1
              \<and> last (get_session_history sm' sid)
                 = \<lparr>query_queryId = qid, query_text = q, answer = aid, timestamp = now\<rparr>))
         \<and> (get_session sm sid = None \<longrightarrow> update_session sid q qid aid now sm = Inr sm)"
proof -
  from assms have i: "store_inv sm" by (rule run_init_inv)
  from update_session_ok [OF i] obtain sm' where
    u: "update_session sid q qid aid now sm = Inr sm'" by blast
  have "update_session sid q qid aid now sm = Inr sm" if "get_session sm sid = None"
    using that by (simp add: update_session_def get_session_def contains_iff_map_of)
  moreover have "get_session_history sm' sid = get_session_history sm sid
       @ [\<lparr>query_queryId = qid, query_text = q, answer = aid, timestamp = now\<rparr>]"
    if "get_session sm sid \<noteq> None"
    using that get_session_history_update [OF u, of sid]
    by (simp add: get_session_def contains_iff_map_of)
  ultimately show ?thesis using u by auto
qed

theorem update_session_appends_one_turn_witness:
  "run [Create_session ''a1'' 5 None] SessionManager_init
     = Inr \<lparr>active_sessions =
              [(''a1-'', \<lparr>session_id = ''a1-'', user_pseudo_id = None, start_time = Some 5,
                          end_time = None, state = ''IN_PROGRESS'', turns = []\<rparr>)],
            session_history = [(''a1-'', [])]\<rparr>
   \<and> (\<exists>sm'. update_session ''a1-'' ''q'' ''q1'' ''answer_q1'' 6
        \<lparr>active_sessions =
              [(''a1-'', \<lparr>session_id = ''a1-'', user_pseudo_id = None, start_time = Some 5,
                          end_time = None, state = ''IN_PROGRESS'', turns = []\<rparr>)],
            session_history = [(''a1-'', [])]\<rparr> = Inr sm'
        \<and> get_session_history sm' ''a1-''
            = [\<lparr>query_queryId = ''q1'', query_text = ''q'', answer = ''answer_q1'', timestamp = 6\<rparr>])
   \<and> update_session ''zz'' ''q'' ''q1'' ''answer_q1'' 6
        \<lparr>active_sessions =
              [(''a1-'', \<lparr>session_id = ''a1-'', user_pseudo_id = None, start_time = Some 5,
                          end_time = None, state = ''IN_PROGRESS'', turns = []\<rparr>)],
            session_history = [(''a1-'', [])]\<rparr>
       = Inr \<lparr>active_sessions =
              [(''a1-'', \<lparr>session_id = ''a1-'', user_pseudo_id = None, start_time = Some 5,
                          end_time = None, state = ''IN_PROGRESS'', turns = []\<rparr>)],
            session_history = [(''a1-'', [])]\<rparr>"
proof -
  let ?sm = "\<lparr>active_sessions =
              [(''a1-'', \<lparr>session_id = ''a1-'', user_pseudo_id = None, start_time = Some 5,
                          end_time = None, state = ''IN_PROGRESS'', turns = []\<rparr>)],
            session_history = [(''a1-'', [])]\<rparr>"
  have r: "run [Create_session ''a1'' 5 None] SessionManager_init = Inr ?sm"
    by (simp add: SessionManager_init_def create_session_def Let_def)
  have p: "get_session ?sm ''a1-'' \<noteq> None" and a: "get_session ?sm ''zz'' = None"
    and h: "get_session_history ?sm ''a1-'' = []"
    by (simp_all add: get_session_def get_session_history_def)
  have 1: "\<exists>sm'. update_session ''a1-'' ''q'' ''q1'' ''answer_q1'' 6 ?sm = Inr sm'
        \<and> get_session_history sm' ''a1-''
            = get_session_history ?sm ''a1-''
              @ [\<lparr>query_queryId = ''q1'', query_text = ''q'', answer = ''answer_q1'', timestamp = 6\<rparr>]"
    using p update_session_appends_one_turn [OF r, of "''a1-''" "''q''" "''q1''" "''answer_q1''" 6]
    by blast
  have 2: "update_session ''zz'' ''q'' ''q1'' ''answer_q1'' 6 ?sm = Inr ?sm"
    using a update_session_appends_one_turn [OF r, of "''zz''" "''q''" "''q1''" "''answer_q1''" 6]
    by blast
  from 1 have "\<exists>sm'. update_session ''a1-'' ''q'' ''q1'' ''answer_q1'' 6 ?sm = Inr sm'
        \<and> get_session_history sm' ''a1-''
            = [\<lparr>query_queryId = ''q1'', query_text = ''q'', answer = ''answer_q1'', timestamp = 6\<rparr>]"
    unfolding h by simp
  with r 2 show ?thesis by blast
qed

text \<open>
  C7 (amended). In every store reached by method calls, \<open>cleanup_old_sessions\<close> with
  \<open>max_age_hours = 0\<close> removes exactly the sessions whose start time is strictly
  earlier than the time of the call, whatever their state, together with their
  histories, and returns their number; the other sessions stay. When every session
  started strictly earlier, the store is emptied and the number of sessions is
  returned. On the empty store it returns 0.
\<close>

theorem cleanup_zero_removes_strictly_older:
  assumes "run cs SessionManager_init = Inr sm"
  shows "(\<exists>sm'. cleanup_old_sessions 0 now sm
              = Inr (length (filter (\<lambda>p. older_than now (snd p)) (active_sessions sm)), sm')
           \<and> active_sessions sm'
              = filter (\<lambda>p. \<not> older_than now (snd p)) (active_sessions sm)
           \<and> session_history sm'
              = filter (\<lambda>p. contains (fst p) (active_sessions sm')) (session_history sm)
           \<and> (list_all (\<lambda>p. older_than now (snd p)) (active_sessions sm) \<longrightarrow>
                cleanup_old_sessions 0 now sm
                  = Inr (length (active_sessions sm), SessionManager_init)))
         \<and> cleanup_old_sessions 0 now SessionManager_init = Inr (0, SessionManager_init)"
proof -
  from assms have i: "store_inv sm" by (rule run_init_inv)
  then have d: "distinct (map fst (active_sessions sm))"
    and k: "map fst (session_history sm) = map fst (active_sessions sm)"
    by (simp_all add: store_inv_def)
  let ?rm = "sessions_to_remove now (active_sessions sm)"
  let ?a = "filter (\<lambda>p. \<not> older_than now (snd p)) (active_sessions sm)"
  let ?h = "filter (\<lambda>p. fst p \<notin> set ?rm) (session_history sm)"
  let ?sm = "sm\<lparr>active_sessions := ?a, session_history := ?h\<rparr>"
  have c: "cleanup_old_sessions 0 now sm
      = Inr (length (filter (\<lambda>p. older_than now (snd p)) (active_sessions sm)), ?sm)"
    using cleanup_old_sessions_ok [OF d, of now now 0] by simp
  have "contains (fst p) ?a \<longleftrightarrow> fst p \<notin> set ?rm" if "p \<in> set (session_history sm)" for p
  proof -
    from that have "fst p \<in> set (map fst (active_sessions sm))"
      unfolding k [symmetric] by simp
    then obtain q where q: "q \<in> set (active_sessions sm)" "fst q = fst p" by auto
    have "contains (fst p) ?a \<longleftrightarrow> \<not> older_than now (snd q)"
    proof
      assume "contains (fst p) ?a"
      then obtain r where r: "r \<in> set (active_sessions sm)" "\<not> older_than now (snd r)"
        "fst r = fst p" by (auto simp: contains_def)
      with q d have "r = q" by (metis distinct_map inj_onD)
      with r show "\<not> older_than now (snd q)" by simp
    next
      assume "\<not> older_than now (snd q)"
      with q show "contains (fst p) ?a" by (force simp: contains_def)
    qed
    with key_removed_iff [OF d q(1), of now] q(2) show ?thesis by simp
  qed
  then have h: "?h = filter (\<lambda>p. contains (fst p) ?a) (session_history sm)"
    by (intro filter_cong refl) simp
  have e: "cleanup_old_sessions 0 now sm = Inr (length (active_sessions sm), SessionManager_init)"
    if "list_all (\<lambda>p. older_than now (snd p)) (active_sessions sm)"
  proof -
    from that have a: "?a = []" and l: "filter (\<lambda>p. older_than now (snd p)) (active_sessions sm) = active_sessions sm"
      by (simp_all add: list_all_iff)
    then have "filter (\<lambda>p. contains (fst p) ?a) (session_history sm) = []"
      by (simp add: contains_def)
    with h have "?h = []" by simp
    with a have "?sm = SessionManager_init"
      by (simp add: SessionManager_init_def)
    with c l show ?thesis by simp
  qed
  have z: "cleanup_old_sessions 0 now SessionManager_init = Inr (0, SessionManager_init)"
    by (simp add: cleanup_old_sessions_def sessions_to_remove_def SessionManager_init_def)
  have "active_sessions ?sm = ?a" "session_history ?sm = filter (\<lambda>p. contains (fst p) (active_sessions ?sm)) (session_history sm)"
    using h by simp_all
  with c e z show ?thesis by blast
qed

theorem cleanup_zero_removes_strictly_older_witness:
  "run [Create_session ''a1'' 5 None, Create_session ''b2'' 7 None] SessionManager_init
     = Inr \<lparr>active_sessions =
              [(''a1-'', \<lparr>session_id = ''a1-'', user_pseudo_id = None, start_time = Some 5,
                          end_time = None, state = ''IN_PROGRESS'', turns = []\<rparr>),
               (''b2-'', \<lparr>session_id = ''b2-'', user_pseudo_id = None, start_time = Some 7,
                          end_time = None, state = ''IN_PROGRESS'', turns = []\<rparr>)],
            session_history = [(''a1-'', []), (''b2-'', [])]\<rparr>
   \<and> cleanup_old_sessions 0 8
        \<lparr>active_sessions =
              [(''a1-'', \<lparr>session_id = ''a1-'', user_pseudo_id = None, start_time = Some 5,
                          end_time = None, state = ''IN_PROGRESS'', turns = []\<rparr>),
               (''b2-'', \<lparr>session_id = ''b2-'', user_pseudo_id = None, start_time = Some 7,
                          end_time = None, state = ''IN_PROGRESS'', turns = []\<rparr>)],
            session_history = [(''a1-'', []), (''b2-'', [])]\<rparr>
      = Inr (2, SessionManager_init)"
proof -
  let ?sm = "\<lparr>active_sessions =
              [(''a1-'', \<lparr>session_id = ''a1-'', user_pseudo_id = None, start_time = Some 5,
                          end_time = None, state = ''IN_PROGRESS'', turns = []\<rparr>),
               (''b2-'', \<lparr>session_id = ''b2-'', user_pseudo_id = None, start_time = Some 7,
                          end_time = None, state = ''IN_PROGRESS'', turns = []\<rparr>)],
            session_history = [(''a1-'', []), (''b2-'', [])]\<rparr>"
  have r: "run [Create_session ''a1'' 5 None, Create_session ''b2'' 7 None] SessionManager_init
     = Inr ?sm"
    by (simp add: SessionManager_init_def create_session_def Let_def)
  have a: "list_all (\<lambda>p. older_than 8 (snd p)) (active_sessions ?sm)"
    by (simp add: older_than_def)
  have "cleanup_old_sessions 0 8 ?sm = Inr (length (active_sessions ?sm), SessionManager_init)"
    using a cleanup_zero_removes_strictly_older [OF r, of 8] by blast
  with r show ?thesis by simp
qed

theorem cleanup_zero_same_instant_counterexample:
  "cleanup_old_sessions 0 5 (snd (create_session ''a1'' 5 None SessionManager_init))
     = Inr (0, snd (create_session ''a1'' 5 None SessionManager_init))
   \<and> map fst (active_sessions (snd (create_session ''a1'' 5 None SessionManager_init)))
     = [''a1-'']"
  by (simp add: cleanup_old_sessions_def sessions_to_remove_def older_than_def
      create_session_def SessionManager_init_def Let_def)

lemma rstrip_dash_idem: "rstrip (rstrip s ''-'') ''-'' = rstrip s ''-''"
  by (rule rstrip_dash_fixed) (rule rstrip_dash_not_endswith)

lemma rstrip_dash_append: "\<not> endswith u ''-'' \<Longrightarrow> rstrip (u @ ''-'') ''-'' = u"
  using rstrip_dash_fixed [of u] by (simp add: rstrip_def)

text \<open>
  C8. \<open>get_clean_session_id\<close> is idempotent on every string; on an identifier that
  ends with the marker it returns the identifier without its trailing markers (at
  least one is removed, and the result carries none); on the identifier returned by
  \<open>create_session\<close> it gives back the UUID's hexadecimal form. It reads its argument
  only: the call leaves the store as it is.
\<close>

theorem confirm_strips_marker_idempotent:
  "get_clean_session_id (get_clean_session_id s) = get_clean_session_id s
   \<and> (is_new_session s \<longrightarrow>
        (\<exists>n. 0 < n \<and> s = get_clean_session_id s @ replicate n CHR ''-'')
        \<and> \<not> is_new_session (get_clean_session_id s))
   \<and> (\<not> is_new_session uuid4_hex \<longrightarrow>
        is_new_session (fst (create_session uuid4_hex now user_id sm))
        \<and> get_clean_session_id (fst (create_session uuid4_hex now user_id sm)) = uuid4_hex)
   \<and> step (Get_clean_session_id s) sm = Inr sm"
proof -
  have a: "get_clean_session_id (get_clean_session_id s) = get_clean_session_id s"
    by (simp add: get_clean_session_id_def rstrip_dash_idem)
  have b: "\<not> is_new_session (get_clean_session_id s)"
    by (simp add: is_new_session_def get_clean_session_id_def rstrip_dash_not_endswith)
  from rstrip_dash_decomp [of s] obtain n where
    n: "s = get_clean_session_id s @ replicate n CHR ''-''"
    by (auto simp: get_clean_session_id_def)
  have "0 < n" if "is_new_session s"
  proof (rule ccontr)
    assume "\<not> 0 < n"
    with n have "get_clean_session_id s = s" by simp
    with b that show False by simp
  qed
  with n have c: "is_new_session s \<longrightarrow> (\<exists>n. 0 < n \<and> s = get_clean_session_id s @ replicate n CHR ''-'')"
    by blast
  have d: "is_new_session (fst (create_session uuid4_hex now user_id sm))"
    by (simp add: create_session_def Let_def is_new_session_def endswith_def)
  have e: "get_clean_session_id (fst (create_session uuid4_hex now user_id sm)) = uuid4_hex"
    if "\<not> is_new_session uuid4_hex"
    using that
    by (simp add: create_session_def Let_def get_clean_session_id_def is_new_session_def
        rstrip_dash_append)
  from a b c d e show ?thesis by simp
qed

theorem confirm_strips_marker_idempotent_witness:
  "is_new_session ''0f3a-''
   \<and> get_clean_session_id ''0f3a-'' = ''0f3a''
   \<and> get_clean_session_id (get_clean_session_id ''0f3a-'') = get_clean_session_id ''0f3a-''
   \<and> \<not> is_new_session ''0f3a''
   \<and> fst (create_session ''0f3a'' 5 None SessionManager_init) = ''0f3a-''"
  using confirm_strips_marker_idempotent [of "''0f3a-''" "''0f3a''" 5 None SessionManager_init]
  by (simp add: is_new_session_def endswith_def get_clean_session_id_def rstrip_def
      create_session_def Let_def)

section \<open>The SOW analysis partitions the results\<close>

lemma update_absent: "\<not> contains k xs \<Longrightarrow> AList.update k v xs = xs @ [(k, v)]"
  by (induction xs) (auto simp: contains_def)

lemma docs_count_map_entry:
  "contains k xs \<Longrightarrow>
   sum_list (map (\<lambda>p. length (documents (snd p)))
      (AList.map_entry k (\<lambda>info. info\<lparr>documents := documents info @ [d]\<rparr>) xs))
     = sum_list (map (\<lambda>p. length (documents (snd p))) xs) + 1"
  by (induction xs) (auto simp: contains_def)

lemma docs_mset_map_entry:
  "contains k xs \<Longrightarrow>
   mset (concat (map (\<lambda>p. documents (snd p))
      (AList.map_entry k (\<lambda>info. info\<lparr>documents := documents info @ [d]\<rparr>) xs)))
     = mset (concat (map (\<lambda>p. documents (snd p)) xs)) + {#d#}"
  by (induction xs) (auto simp: contains_def)

lemma contains_append_self: "contains k (xs @ [(k, v)])"
  by (simp add: contains_def)

lemma extract_loop_count:
  "extract_loop rs sws other = (sws', other') \<Longrightarrow>
   sum_list (map (\<lambda>p. length (documents (snd p))) sws') + length other'
     = sum_list (map (\<lambda>p. length (documents (snd p))) sws) + length other + length rs"
proof (induction rs arbitrary: sws other)
  case Nil
  then show ?case by simp
next
  case (Cons r rs)
  show ?case
  proof (cases "sow_search (title r)")
    case None
    with Cons.prems have "extract_loop rs sws (other @ [make_document r]) = (sws', other')"
      by simp
    from Cons.IH [OF this] show ?thesis by simp
  next
    case (Some num)
    let ?k = "(ustr ''SOW#'') @ num"
    let ?new = "\<lparr>sow_number = num, documents = [], primary_title = title r\<rparr>"
    let ?s1 = "if \<not> contains ?k sws then AList.update ?k ?new sws else sws"
    let ?s2 = "AList.map_entry ?k (\<lambda>info. info\<lparr>documents := documents info @ [make_document r]\<rparr>) ?s1"
    have "extract_loop (r # rs) sws other = extract_loop rs ?s2 other"
      using Some by (simp add: Let_def)
    with Cons.prems have "extract_loop rs ?s2 other = (sws', other')"
      by simp
    from Cons.IH [OF this] have
      "sum_list (map (\<lambda>p. length (documents (snd p))) sws') + length other'
         = sum_list (map (\<lambda>p. length (documents (snd p))) ?s2) + length other + length rs" .
    moreover have c: "contains ?k ?s1"
      by (simp add: update_absent contains_append_self)
    have "sum_list (map (\<lambda>p. length (documents (snd p))) ?s1)
        = sum_list (map (\<lambda>p. length (documents (snd p))) sws)"
      by (simp add: update_absent)
    with docs_count_map_entry [OF c, of "make_document r"]
    have "sum_list (map (\<lambda>p. length (documents (snd p))) ?s2)
        = sum_list (map (\<lambda>p. length (documents (snd p))) sws) + 1"
      by simp
    ultimately show ?thesis by simp
  qed
qed

lemma extract_loop_mset:
  "extract_loop rs sws other = (sws', other') \<Longrightarrow>
   mset (concat (map (\<lambda>p. documents (snd p)) sws')) + mset other'
     = mset (concat (map (\<lambda>p. documents (snd p)) sws)) + mset other
       + mset (map make_document rs)"
proof (induction rs arbitrary: sws other)
  case Nil
  then show ?case by simp
next
  case (Cons r rs)
  show ?case
  proof (cases "sow_search (title r)")
    case None
    with Cons.prems have "extract_loop rs sws (other @ [make_document r]) = (sws', other')"
      by simp
    from Cons.IH [OF this] show ?thesis by simp
  next
    case (Some num)
    let ?k = "(ustr ''SOW#'') @ num"
    let ?new = "\<lparr>sow_number = num, documents = [], primary_title = title r\<rparr>"
    let ?s1 = "if \<not> contains ?k sws then AList.update ?k ?new sws else sws"
    let ?s2 = "AList.map_entry ?k (\<lambda>info. info\<lparr>documents := documents info @ [make_document r]\<rparr>) ?s1"
    have "extract_loop (r # rs) sws other = extract_loop rs ?s2 other"
      using Some by (simp add: Let_def)
    with Cons.prems have "extract_loop rs ?s2 other = (sws', other')"
      by simp
    from Cons.IH [OF this] have
      "mset (concat (map (\<lambda>p. documents (snd p)) sws')) + mset other'
         = mset (concat (map (\<lambda>p. documents (snd p)) ?s2)) + mset other
           + mset (map make_document rs)" .
    moreover have c: "contains ?k ?s1"
      by (simp add: update_absent contains_append_self)
    have "mset (concat (map (\<lambda>p. documents (snd p)) ?s1))
        = mset (concat (map (\<lambda>p. documents (snd p)) sws))"
      by (simp add: update_absent)
    with docs_mset_map_entry [OF c, of "make_document r"]
    have "mset (concat (map (\<lambda>p. documents (snd p)) ?s2))
        = mset (concat (map (\<lambda>p. documents (snd p)) sws)) + {#make_document r#}"
      by simp
    ultimately show ?thesis by simp
  qed
qed

lemma extract_loop_other:
  "snd (extract_loop rs sws other)
     = other @ map make_document (filter (\<lambda>r. sow_search (title r) = None) rs)"
  by (induction rs arbitrary: sws other) (auto simp: Let_def split: option.splits)

lemma group_lookup_step:
  "map_of (AList.map_entry k (\<lambda>info. info\<lparr>documents := documents info @ [d]\<rparr>)
      (if \<not> contains k sws then AList.update k \<lparr>sow_number = n, documents = [], primary_title = t\<rparr> sws
       else sws)) k'
   = (if k' = k then
        Some (case map_of sws k of
                None \<Rightarrow> \<lparr>sow_number = n, documents = [d], primary_title = t\<rparr>
              | Some info \<Rightarrow> info\<lparr>documents := documents info @ [d]\<rparr>)
      else map_of sws k')"
  by (auto simp: map_of_map_entry update_conv contains_iff_map_of split: option.splits)

lemma extract_loop_group_docs:
  "(case map_of (fst (extract_loop rs sws other)) k of None \<Rightarrow> [] | Some info \<Rightarrow> documents info)
     = (case map_of sws k of None \<Rightarrow> [] | Some info \<Rightarrow> documents info)
       @ map make_document
           (filter (\<lambda>r. map_option ((@) (ustr ''SOW#'')) (sow_search (title r)) = Some k) rs)"
proof (induction rs arbitrary: sws other)
  case Nil
  then show ?case by simp
next
  case (Cons r rs)
  show ?case
  proof (cases "sow_search (title r)")
    case None
    with Cons.IH show ?thesis by simp
  next
    case (Some num)
    let ?k = "(ustr ''SOW#'') @ num"
    let ?s2 = "AList.map_entry ?k (\<lambda>info. info\<lparr>documents := documents info @ [make_document r]\<rparr>)
       (if \<not> contains ?k sws
        then AList.update ?k \<lparr>sow_number = num, documents = [], primary_title = title r\<rparr> sws
        else sws)"
    have e: "extract_loop (r # rs) sws other = extract_loop rs ?s2 other"
      using Some by (simp add: Let_def)
    have "(case map_of ?s2 k of None \<Rightarrow> [] | Some info \<Rightarrow> documents info)
        = (case map_of sws k of None \<Rightarrow> [] | Some info \<Rightarrow> documents info)
          @ (if k = ?k then [make_document r] else [])"
      unfolding group_lookup_step by (simp split: option.splits)
    with Cons.IH [of ?s2 other] Some show ?thesis
      unfolding e by auto
  qed
qed

lemma group_keys_step:
  "map fst (AList.map_entry k f (if \<not> contains k sws then AList.update k v sws else sws))
     = (if contains k sws then map fst sws else map fst sws @ [k])"
  by (simp add: map_fst_map_entry update_absent)

lemma extract_loop_distinct:
  "distinct (map fst sws) \<Longrightarrow> distinct (map fst (fst (extract_loop rs sws other)))"
proof (induction rs arbitrary: sws other)
  case Nil
  then show ?case by simp
next
  case (Cons r rs)
  show ?case
  proof (cases "sow_search (title r)")
    case None
    with Cons show ?thesis by simp
  next
    case (Some num)
    let ?k = "(ustr ''SOW#'') @ num"
    let ?s2 = "AList.map_entry ?k (\<lambda>info. info\<lparr>documents := documents info @ [make_document r]\<rparr>)
       (if \<not> contains ?k sws
        then AList.update ?k \<lparr>sow_number = num, documents = [], primary_title = title r\<rparr> sws
        else sws)"
    have e: "extract_loop (r # rs) sws other = extract_loop rs ?s2 other"
      using Some by (simp add: Let_def)
    have "distinct (map fst ?s2)"
      unfolding group_keys_step using Cons.prems by (simp add: contains_def)
    from Cons.IH [OF this] show ?thesis unfolding e .
  qed
qed

lemma map_of_sort_key:
  assumes "distinct (map fst xs)"
  shows "map_of (sort_key fst xs) = map_of xs"
proof -
  have "distinct (map fst (sort_key fst xs))"
    using assms by (simp add: distinct_map)
  moreover have "set (sort_key fst xs) = set xs" by simp
  ultimately show ?thesis using assms
    by (simp add: map_of_inject_set)
qed

lemma sum_list_sort_key:
  "sum_list (map f (sort_key k xs)) = (sum_list (map f xs) :: nat)"
proof -
  have "mset (map f (sort_key k xs)) = mset (map f xs)" by simp
  then show ?thesis by (metis sum_mset_sum_list)
qed

lemma mset_concat_sort_key:
  "mset (concat (map f (sort_key k xs))) = mset (concat (map f xs))"
proof -
  have "mset (map (\<lambda>x. mset (f x)) (sort_key k xs)) = mset (map (\<lambda>x. mset (f x)) xs)" by simp
  then have "sum_list (map (\<lambda>x. mset (f x)) (sort_key k xs)) = sum_list (map (\<lambda>x. mset (f x)) xs)"
    by (metis sum_mset_sum_list)
  then show ?thesis by (simp add: mset_concat comp_def)
qed

text \<open>
  C1. For every list of results, the documents of all groups together with the
  unclassified documents are exactly the condensed records of the input results, one
  for each: their numbers add up to \<open>total_documents\<close>, which is the length of the
  input. A result whose title does not match goes to \<open>other_documents\<close> and to no
  group; a result whose title matches goes to the group of its key and nowhere else.
  The group keys are distinct and in ascending order.
\<close>

theorem extract_sows_partition:
  "(let a = extract_sows_from_results results in
      sum_list (map (\<lambda>p. length (documents (snd p))) (sows a)) + length (other_documents a)
        = total_documents a
      \<and> total_documents a = length results
      \<and> mset (concat (map (\<lambda>p. documents (snd p)) (sows a))) + mset (other_documents a)
        = mset (map make_document results)
      \<and> other_documents a
        = map make_document (filter (\<lambda>r. sow_search (title r) = None) results)
      \<and> (case map_of (sows a) k of None \<Rightarrow> [] | Some info \<Rightarrow> documents info)
        = map make_document
            (filter (\<lambda>r. map_option ((@) (ustr ''SOW#'')) (sow_search (title r)) = Some k) results)
      \<and> distinct (map fst (sows a)) \<and> sorted (map fst (sows a)))"
proof -
  obtain sws other where e: "extract_loop results [] [] = (sws, other)"
    by (cases "extract_loop results [] []")
  let ?a = "extract_sows_from_results results"
  have a: "sows ?a = sort_key fst sws" "other_documents ?a = other"
    "total_documents ?a = length results"
    by (simp_all add: extract_sows_from_results_def e)
  have d: "distinct (map fst sws)"
    using extract_loop_distinct [of "[]" results "[]"] by (simp add: e)
  have 1: "sum_list (map (\<lambda>p. length (documents (snd p))) (sows ?a)) + length (other_documents ?a)
      = length results"
    using extract_loop_count [OF e] by (simp add: a sum_list_sort_key)
  have 2: "mset (concat (map (\<lambda>p. documents (snd p)) (sows ?a))) + mset (other_documents ?a)
      = mset (map make_document results)"
    using extract_loop_mset [OF e] by (simp add: a mset_concat_sort_key)
  have 3: "other_documents ?a
      = map make_document (filter (\<lambda>r. sow_search (title r) = None) results)"
    using extract_loop_other [of results "[]" "[]"] by (simp add: a e)
  have 4: "(case map_of (sows ?a) k of None \<Rightarrow> [] | Some info \<Rightarrow> documents info)
      = map make_document
          (filter (\<lambda>r. map_option ((@) (ustr ''SOW#'')) (sow_search (title r)) = Some k) results)"
    using extract_loop_group_docs [of results "[]" "[]" k]
    by (simp add: a e map_of_sort_key [OF d])
  have 5: "distinct (map fst (sows ?a))" "sorted (map fst (sows ?a))"
    using d by (simp_all add: a distinct_map)
  from 1 2 3 4 5 a(3) show ?thesis
    by (simp add: Let_def)
qed

theorem extract_sows_partition_witness:
  "map (\<lambda>p. (fst p, primary_title (snd p), map doc_title (documents (snd p))))
     (sows (extract_sows_from_results
       [\<lparr>title = ustr ''CHR_SOW#1 Intro'', content = ustr ''a'', uri = None, score = None\<rparr>,
        \<lparr>title = ustr ''SOW#1 Appendix'', content = ustr ''b'', uri = None, score = None\<rparr>,
        \<lparr>title = ustr ''Random Doc'', content = ustr ''c'', uri = None, score = None\<rparr>,
        \<lparr>title = ustr ''SOW#2'', content = ustr ''d'', uri = None, score = None\<rparr>]))
     = [(ustr ''SOW#1'', ustr ''CHR_SOW#1 Intro'',
           [ustr ''CHR_SOW#1 Intro'', ustr ''SOW#1 Appendix'']),
        (ustr ''SOW#2'', ustr ''SOW#2'', [ustr ''SOW#2''])]
   \<and> map doc_title (other_documents (extract_sows_from_results
       [\<lparr>title = ustr ''CHR_SOW#1 Intro'', content = ustr ''a'', uri = None, score = None\<rparr>,
        \<lparr>title = ustr ''SOW#1 Appendix'', content = ustr ''b'', uri = None, score = None\<rparr>,
        \<lparr>title = ustr ''Random Doc'', content = ustr ''c'', uri = None, score = None\<rparr>,
        \<lparr>title = ustr ''SOW#2'', content = ustr ''d'', uri = None, score = None\<rparr>]))
     = [ustr ''Random Doc'']
   \<and> total_documents (extract_sows_from_results
       [\<lparr>title = ustr ''CHR_SOW#1 Intro'', content = ustr ''a'', uri = None, score = None\<rparr>,
        \<lparr>title = ustr ''SOW#1 Appendix'', content = ustr ''b'', uri = None, score = None\<rparr>,
        \<lparr>title = ustr ''Random Doc'', content = ustr ''c'', uri = None, score = None\<rparr>,
        \<lparr>title = ustr ''SOW#2'', content = ustr ''d'', uri = None, score = None\<rparr>])
     = 4"
proof -
  let ?rs = "[\<lparr>title = ustr ''CHR_SOW#1 Intro'', content = ustr ''a'', uri = None, score = None\<rparr>,
        \<lparr>title = ustr ''SOW#1 Appendix'', content = ustr ''b'', uri = None, score = None\<rparr>,
        \<lparr>title = ustr ''Random Doc'', content = ustr ''c'', uri = None, score = None\<rparr>,
        \<lparr>title = ustr ''SOW#2'', content = ustr ''d'', uri = None, score = None\<rparr>]"
  have s: "sow_search (ustr ''CHR_SOW#1 Intro'') = Some (ustr ''1'')"
    "sow_search (ustr ''SOW#1 Appendix'') = Some (ustr ''1'')"
    "sow_search (ustr ''Random Doc'') = None"
    "sow_search (ustr ''SOW#2'') = Some (ustr ''2'')"
    by (simp_all add: ustr_def match_here_def match_sow_def fold_case_def is_sep_def
      is_space_def is_idchar_def)
  have k: "ustr ''SOW#'' @ ustr ''1'' = ustr ''SOW#1''" "ustr ''SOW#'' @ ustr ''2'' = ustr ''SOW#2''"
    "ustr ''SOW#1'' \<noteq> ustr ''SOW#2''" "ustr ''SOW#2'' \<noteq> ustr ''SOW#1''"
    "ustr ''SOW#1'' \<le> ustr ''SOW#2''"
    "length (ustr ''a'') = 1" "length (ustr ''b'') = 1" "length (ustr ''c'') = 1"
    "length (ustr ''d'') = 1"
    by (simp_all add: ustr_def)
  have e: "extract_loop ?rs [] [] =
     ([(ustr ''SOW#1'', \<lparr>sow_number = ustr ''1'',
          documents = [\<lparr>doc_title = ustr ''CHR_SOW#1 Intro'', link = None,
                          doc_content = ustr ''a'', doc_score = None\<rparr>,
                       \<lparr>doc_title = ustr ''SOW#1 Appendix'', link = None,
                          doc_content = ustr ''b'', doc_score = None\<rparr>],
          primary_title = ustr ''CHR_SOW#1 Intro''\<rparr>),
       (ustr ''SOW#2'', \<lparr>sow_number = ustr ''2'',
          documents = [\<lparr>doc_title = ustr ''SOW#2'', link = None,
                          doc_content = ustr ''d'', doc_score = None\<rparr>],
          primary_title = ustr ''SOW#2''\<rparr>)],
      [\<lparr>doc_title = ustr ''Random Doc'', link = None, doc_content = ustr ''c'',
         doc_score = None\<rparr>])"
    by (simp del: sow_search.simps
        add: s k Let_def contains_def make_document_def content_preview_def)
  have t: "total_documents (extract_sows_from_results ?rs) = 4"
    using extract_sows_partition [of ?rs "ustr ''SOW#1''"] by (simp add: Let_def)
  show ?thesis
    unfolding t unfolding extract_sows_from_results_def e by (simp add: k)
qed

section \<open>The content preview\<close>

lemma extract_docs_set:
  "set (concat (map (\<lambda>p. documents (snd p)) (sows (extract_sows_from_results results))))
     \<union> set (other_documents (extract_sows_from_results results))
   = make_document ` set results"
proof -
  obtain sws other where e: "extract_loop results [] [] = (sws, other)"
    by (cases "extract_loop results [] []")
  let ?a = "extract_sows_from_results results"
  have "mset (concat (map (\<lambda>p. documents (snd p)) (sows ?a))) + mset (other_documents ?a)
      = mset (map make_document results)"
    using extract_loop_mset [OF e]
    by (simp add: extract_sows_from_results_def e mset_concat_sort_key)
  then have "set_mset (mset (concat (map (\<lambda>p. documents (snd p)) (sows ?a))) + mset (other_documents ?a))
      = set_mset (mset (map make_document results))"
    by simp
  then show ?thesis by simp
qed

text \<open>
  C5 (amended). For a result whose content is longer than 200 characters the content
  preview of its condensed record is the first 200 characters of the content, which are
  a prefix of the content, followed by the marker \<open>...\<close>: its length is exactly 203.
  Content of at most 200 characters is passed through unchanged, with no marker. The
  records in the groups and in \<open>other_documents\<close> are exactly the condensed records of
  the input results.
\<close>

theorem content_preview_truncates:
  "(length (content r) > 200 \<longrightarrow>
      doc_content (make_document r) = take 200 (content r) @ ustr ''...''
      \<and> length (doc_content (make_document r)) = 203
      \<and> prefix (take 200 (content r)) (content r))
   \<and> (length (content r) \<le> 200 \<longrightarrow> doc_content (make_document r) = content r)
   \<and> set (concat (map (\<lambda>p. documents (snd p)) (sows (extract_sows_from_results results))))
        \<union> set (other_documents (extract_sows_from_results results))
      = make_document ` set results"
proof -
  have p: "prefix (take 200 (content r)) (content r)"
    by (rule take_is_prefix)
  have l: "length (content r) > 200 \<longrightarrow>
      doc_content (make_document r) = take 200 (content r) @ ustr ''...''
      \<and> length (doc_content (make_document r)) = 203"
    by (simp add: make_document_def content_preview_def ustr_def)
  have u: "length (content r) \<le> 200 \<longrightarrow> doc_content (make_document r) = content r"
    by (simp add: make_document_def content_preview_def)
  from p l u extract_docs_set [of results] show ?thesis
    by blast
qed

theorem content_preview_truncates_witness:
  "length (content \<lparr>title = ustr ''Notes'', content = replicate 201 0x61, uri = None,
                     score = None\<rparr>) > 200
   \<and> doc_content (make_document
        \<lparr>title = ustr ''Notes'', content = replicate 201 0x61, uri = None, score = None\<rparr>)
      = replicate 200 0x61 @ ustr ''...''
   \<and> doc_content (make_document
        \<lparr>title = ustr ''Notes'', content = ustr ''short'', uri = None, score = None\<rparr>)
      = ustr ''short''"
  using content_preview_truncates
      [of "\<lparr>title = ustr ''Notes'', content = replicate 201 0x61, uri = None, score = None\<rparr>"
          "[]"]
    content_preview_truncates
      [of "\<lparr>title = ustr ''Notes'', content = ustr ''short'', uri = None, score = None\<rparr>" "[]"]
  by (simp add: ustr_def)

theorem content_preview_not_prefix_counterexample:
  "length (content \<lparr>title = ustr ''Notes'', content = replicate 201 0x61, uri = None,
                     score = None\<rparr>) > 200
   \<and> map doc_content (other_documents (extract_sows_from_results
        [\<lparr>title = ustr ''Notes'', content = replicate 201 0x61, uri = None, score = None\<rparr>]))
      = [replicate 200 0x61 @ ustr ''...'']
   \<and> \<not> prefix (replicate 200 0x61 @ ustr ''...'') (replicate 201 0x61)"
proof -
  have s: "sow_search (ustr ''Notes'') = None"
    by (simp add: ustr_def match_here_def match_sow_def fold_case_def is_sep_def is_space_def
      is_idchar_def)
  have "prefix (replicate 200 0x61 @ ustr ''...'') (replicate 201 (0x61 :: nat)) \<Longrightarrow> False"
    by (drule prefix_length_le) (simp add: ustr_def)
  then show ?thesis
    by (auto simp del: sow_search.simps
        simp add: s extract_sows_from_results_def make_document_def content_preview_def)
qed

section \<open>What the title pattern matches\<close>

lemma fold_case_idem: "fold_case (fold_case c) = fold_case c"
  by (simp add: fold_case_def)

lemma is_idchar_lower: "is_idchar (fold_case c) = is_idchar c"
  by (auto simp: is_idchar_def fold_case_def)

lemma is_sep_lower: "is_sep (fold_case c) = is_sep c"
  by (auto simp: is_sep_def is_space_def fold_case_def)

lemma is_idchar_chars: "is_idchar c \<longleftrightarrow> c \<in> set (ustr ''0123456789Xx'')"
proof -
  have "(0x30 \<le> c \<and> c \<le> 0x39) \<longleftrightarrow> c \<in> {48, 49, 50, 51, 52, 53, 54, 55, 56, 57}"
    by auto arith
  moreover have "fold_case c = 0x78 \<longleftrightarrow> c = 88 \<or> c = 120"
    by (auto simp: fold_case_def)
  ultimately show ?thesis
    by (auto simp: is_idchar_def ustr_def)
qed

lemma idchar_not_sep: "is_idchar c \<Longrightarrow> \<not> is_sep c"
  by (auto simp: is_idchar_def is_sep_def is_space_def fold_case_def split: if_splits)

lemma match_literal_iff:
  "match_literal p s = Some r \<longleftrightarrow>
     (\<exists>l. s = l @ r \<and> map fold_case l = map fold_case p)"
proof (induction p s rule: match_literal.induct)
  case (1 s)
  then show ?case by auto
next
  case (2 p ps)
  then show ?case by auto
next
  case (3 p ps c cs)
  show ?case
  proof (cases "fold_case c = fold_case p")
    case True
    with 3 have "match_literal (p # ps) (c # cs) = Some r \<longleftrightarrow>
        (\<exists>l. cs = l @ r \<and> map fold_case l = map fold_case ps)"
      by simp
    also have "\<dots> \<longleftrightarrow> (\<exists>l. c # cs = l @ r \<and> map fold_case l = map fold_case (p # ps))"
    proof
      assume "\<exists>l. cs = l @ r \<and> map fold_case l = map fold_case ps"
      then obtain l where "cs = l @ r" "map fold_case l = map fold_case ps" by blast
      with True have "c # cs = (c # l) @ r \<and> map fold_case (c # l) = map fold_case (p # ps)"
        by simp
      then show "\<exists>l. c # cs = l @ r \<and> map fold_case l = map fold_case (p # ps)" by blast
    next
      assume "\<exists>l. c # cs = l @ r \<and> map fold_case l = map fold_case (p # ps)"
      then obtain l where l: "c # cs = l @ r" "map fold_case l = map fold_case (p # ps)"
        by blast
      then obtain l' where "l = c # l'" by (cases l) auto
      with l show "\<exists>l. cs = l @ r \<and> map fold_case l = map fold_case ps" by auto
    qed
    finally show ?thesis .
  next
    case False
    have "\<not> (\<exists>l. c # cs = l @ r \<and> map fold_case l = map fold_case (p # ps))"
    proof
      assume "\<exists>l. c # cs = l @ r \<and> map fold_case l = map fold_case (p # ps)"
      then obtain l where l: "c # cs = l @ r" "map fold_case l = map fold_case (p # ps)"
        by blast
      then obtain l' where "l = c # l'" by (cases l) auto
      with l False show False by auto
    qed
    with False show ?thesis by simp
  qed
qed

lemma match_literal_lower:
  "match_literal p (map fold_case s) = map_option (map fold_case) (match_literal p s)"
  by (induction p s rule: match_literal.induct) (simp_all add: fold_case_idem)

lemma dropWhile_sep_lower:
  "dropWhile is_sep (map fold_case s) = map fold_case (dropWhile is_sep s)"
  by (induction s) (simp_all add: is_sep_lower)

lemma takeWhile_idchar_lower:
  "takeWhile is_idchar (map fold_case s) = map fold_case (takeWhile is_idchar s)"
  by (induction s) (simp_all add: is_idchar_lower)

lemma match_sow_lower:
  "match_sow (map fold_case s) = map_option (map fold_case) (match_sow s)"
  by (simp add: match_sow_def match_literal_lower dropWhile_sep_lower takeWhile_idchar_lower
      Let_def split: option.splits)

lemma match_here_lower:
  "match_here (map fold_case s) = map_option (map fold_case) (match_here s)"
  by (simp add: match_here_def match_literal_lower match_sow_lower split: option.splits)

lemma sow_search_lower:
  "sow_search (map fold_case t) = map_option (map fold_case) (sow_search t)"
proof (induction t)
  case Nil
  then show ?case using match_here_lower [of "[]"] by simp
next
  case (Cons c cs)
  with match_here_lower [of "c # cs"] show ?case
    by (simp split: option.splits)
qed

lemma lower_SOW: "map fold_case (ustr ''SOW'') = (ustr ''sow'')"
  by (simp add: fold_case_def ustr_def)

lemma match_literal_SOW:
  "match_literal (ustr ''SOW'') s = Some r \<longleftrightarrow> (\<exists>l. s = l @ r \<and> map fold_case l = (ustr ''sow''))"
  by (simp only: match_literal_iff lower_SOW)

lemma match_literal_SOW_E:
  assumes s1: "match_literal (ustr ''SOW'') s = Some s1"
  obtains l where  "s = l @ s1" "map fold_case l = (ustr ''sow'')"
  using s1 [unfolded match_literal_SOW] by (elim exE conjE)

lemma match_literal_SOW_I:
  assumes "s = l @ r" "map fold_case l = (ustr ''sow'')"
  shows "match_literal (ustr ''SOW'') s = Some r"
  unfolding match_literal_SOW using assms by (intro exI conjI)

lemma takeWhile_nonempty_iff: "takeWhile P xs \<noteq> [] \<longleftrightarrow> (\<exists>x ys. xs = x # ys \<and> P x)"
  by (cases xs) auto

lemma match_sow_Some_iff:
  "match_sow s = Some g \<longleftrightarrow>
     (\<exists>l seps rest. s = l @ seps @ g @ rest \<and> map fold_case l = (ustr ''sow'')
        \<and> list_all is_sep seps \<and> g \<noteq> [] \<and> list_all is_idchar g
        \<and> (rest = [] \<or> \<not> is_idchar (hd rest)))"
proof
  assume m: "match_sow s = Some g"
  then obtain s1 where s1: "match_literal (ustr ''SOW'') s = Some s1"
    by (auto simp: match_sow_def split: option.splits)
  let ?d = "dropWhile is_sep s1"
  let ?seps = "takeWhile is_sep s1"
  let ?rest = "dropWhile is_idchar ?d"
  from m s1 have g: "g = takeWhile is_idchar ?d" "g \<noteq> []"
    by (auto simp: match_sow_def Let_def split: if_splits)
  from s1 obtain l where l: "s = l @ s1" "map fold_case l = (ustr ''sow'')"
    by (rule match_literal_SOW_E)
  have "s1 = ?seps @ ?d" by simp
  moreover have "?d = g @ ?rest" by (simp add: g)
  ultimately have 1: "s = l @ ?seps @ g @ ?rest"
    using l(1) by simp
  have 2: "list_all is_sep ?seps"
    by (auto simp: list_all_iff dest: set_takeWhileD)
  have 3: "list_all is_idchar g"
    by (auto simp: g list_all_iff dest: set_takeWhileD)
  have 4: "?rest = [] \<or> \<not> is_idchar (hd ?rest)"
    using hd_dropWhile [of is_idchar ?d] by blast
  have "s = l @ ?seps @ g @ ?rest \<and> map fold_case l = (ustr ''sow'')
        \<and> list_all is_sep ?seps \<and> g \<noteq> [] \<and> list_all is_idchar g
        \<and> (?rest = [] \<or> \<not> is_idchar (hd ?rest))"
    using 1 l(2) 2 g(2) 3 4 by (intro conjI)
  then show "\<exists>l seps rest. s = l @ seps @ g @ rest \<and> map fold_case l = (ustr ''sow'')
        \<and> list_all is_sep seps \<and> g \<noteq> [] \<and> list_all is_idchar g
        \<and> (rest = [] \<or> \<not> is_idchar (hd rest))"
    by (intro exI)
next
  assume "\<exists>l seps rest. s = l @ seps @ g @ rest \<and> map fold_case l = (ustr ''sow'')
        \<and> list_all is_sep seps \<and> g \<noteq> [] \<and> list_all is_idchar g
        \<and> (rest = [] \<or> \<not> is_idchar (hd rest))"
  then obtain l seps rest where s: "s = l @ seps @ g @ rest" and l: "map fold_case l = (ustr ''sow'')"
    and seps: "list_all is_sep seps" and g: "g \<noteq> []" "list_all is_idchar g"
    and rest: "rest = [] \<or> \<not> is_idchar (hd rest)"
    by (elim exE conjE)
  from s l have m: "match_literal (ustr ''SOW'') s = Some (seps @ g @ rest)"
    by (rule match_literal_SOW_I)
  from g obtain c g' where c: "g = c # g'" "is_idchar c" by (cases g) auto
  then have "\<not> is_sep c" by (simp add: idchar_not_sep)
  with c(1) have "dropWhile is_sep (g @ rest) = g @ rest" by simp
  with seps have d: "dropWhile is_sep (seps @ g @ rest) = g @ rest"
    by (simp add: dropWhile_append2 list_all_iff)
  from rest have "takeWhile is_idchar rest = []" by (cases rest) auto
  with g(2) have t: "takeWhile is_idchar (g @ rest) = g"
    by (simp add: takeWhile_append2 list_all_iff)
  from m d t g(1) show "match_sow s = Some g"
    by (simp add: match_sow_def)
qed

lemma match_sow_None_iff:
  "match_sow s = None \<longleftrightarrow>
     \<not> (\<exists>l seps c rest. s = l @ seps @ c # rest \<and> map fold_case l = (ustr ''sow'')
          \<and> list_all is_sep seps \<and> is_idchar c)"
proof
  assume n: "match_sow s = None"
  show "\<not> (\<exists>l seps c rest. s = l @ seps @ c # rest \<and> map fold_case l = (ustr ''sow'')
          \<and> list_all is_sep seps \<and> is_idchar c)"
  proof
    assume "\<exists>l seps c rest. s = l @ seps @ c # rest \<and> map fold_case l = (ustr ''sow'')
          \<and> list_all is_sep seps \<and> is_idchar c"
    then obtain l seps c rest where s: "s = l @ seps @ c # rest"
      and l: "map fold_case l = (ustr ''sow'')" and seps: "list_all is_sep seps" and c: "is_idchar c"
      by (elim exE conjE)
    from s l have m: "match_literal (ustr ''SOW'') s = Some (seps @ c # rest)"
      by (rule match_literal_SOW_I)
    from c have "\<not> is_sep c" by (rule idchar_not_sep)
    with seps have "dropWhile is_sep (seps @ c # rest) = c # rest"
      by (simp add: dropWhile_append2 list_all_iff)
    with m c have "match_sow s \<noteq> None"
      by (simp add: match_sow_def)
    with n show False by simp
  qed
next
  assume a: "\<not> (\<exists>l seps c rest. s = l @ seps @ c # rest \<and> map fold_case l = (ustr ''sow'')
          \<and> list_all is_sep seps \<and> is_idchar c)"
  show "match_sow s = None"
  proof (rule ccontr)
    assume "match_sow s \<noteq> None"
    then obtain g where "match_sow s = Some g" by blast
    from this [unfolded match_sow_Some_iff]
    obtain l seps rest where s: "s = l @ seps @ g @ rest" "map fold_case l = (ustr ''sow'')"
      "list_all is_sep seps" "g \<noteq> []" "list_all is_idchar g"
      by (elim exE conjE)
    then obtain c g' where "g = c # g'" "is_idchar c" by (cases g) auto
    with s have "s = l @ seps @ c # (g' @ rest) \<and> map fold_case l = (ustr ''sow'')
          \<and> list_all is_sep seps \<and> is_idchar c"
      by simp
    then have "\<exists>l seps c rest. s = l @ seps @ c # rest \<and> map fold_case l = (ustr ''sow'')
          \<and> list_all is_sep seps \<and> is_idchar c"
      by (intro exI)
    with a show False by (rule notE)
  qed
qed

lemma match_here_None: "match_here s = None \<Longrightarrow> match_sow s = None"
  by (auto simp: match_here_def split: option.splits)

lemma match_here_Some:
  "match_here s = Some g \<Longrightarrow> \<exists>p s1. s = p @ s1 \<and> match_sow s1 = Some g"
proof -
  assume m: "match_here s = Some g"
  show ?thesis
  proof (cases "match_sow s = Some g")
    case True
    then have "s = [] @ s \<and> match_sow s = Some g" by simp
    then show ?thesis by blast
  next
    case False
    with m obtain s1 where "match_literal (ustr ''CHR_'') s = Some s1" "match_sow s1 = Some g"
      by (auto simp: match_here_def split: option.splits)
    then show ?thesis unfolding match_literal_iff by blast
  qed
qed

lemma sow_search_None_iff:
  "sow_search t = None \<longleftrightarrow> (\<forall>pre suf. t = pre @ suf \<longrightarrow> match_sow suf = None)"
proof (induction t)
  case Nil
  have "match_sow [] = None" by (simp add: match_sow_def ustr_def)
  then show ?case by (simp add: match_here_def ustr_def)
next
  case (Cons c cs)
  have s: "sow_search (c # cs) = None \<longleftrightarrow> match_here (c # cs) = None \<and> sow_search cs = None"
    by (simp split: option.splits)
  show ?case
  proof
    assume "sow_search (c # cs) = None"
    with s have h: "match_here (c # cs) = None" and r: "sow_search cs = None" by simp_all
    show "\<forall>pre suf. c # cs = pre @ suf \<longrightarrow> match_sow suf = None"
    proof (intro allI impI)
      fix pre suf assume e: "c # cs = pre @ suf"
      show "match_sow suf = None"
      proof (cases pre)
        case Nil
        with e h show ?thesis by (simp add: match_here_None)
      next
        case (Cons a pre')
        with e have "cs = pre' @ suf" by simp
        with r Cons.IH show ?thesis by blast
      qed
    qed
  next
    assume a: "\<forall>pre suf. c # cs = pre @ suf \<longrightarrow> match_sow suf = None"
    have "match_here (c # cs) = None"
    proof (rule ccontr)
      assume "match_here (c # cs) \<noteq> None"
      then obtain g where "match_here (c # cs) = Some g" by blast
      from match_here_Some [OF this] a show False by force
    qed
    moreover have "\<forall>pre suf. cs = pre @ suf \<longrightarrow> match_sow suf = None"
    proof (intro allI impI)
      fix pre suf assume "cs = pre @ suf"
      then have "c # cs = (c # pre) @ suf" by simp
      with a show "match_sow suf = None" by blast
    qed
    ultimately show "sow_search (c # cs) = None"
      using s Cons.IH by blast
  qed
qed

lemma sow_search_Some:
  "sow_search t = Some g \<Longrightarrow> \<exists>pre suf. t = pre @ suf \<and> match_sow suf = Some g"
proof (induction t)
  case Nil
  then have "match_here [] = Some g" by simp
  from match_here_Some [OF this] show ?case by simp
next
  case (Cons c cs)
  show ?case
  proof (cases "match_here (c # cs)")
    case None
    with Cons.prems have "sow_search cs = Some g" by simp
    from Cons.IH [OF this] obtain pre suf where "cs = pre @ suf" "match_sow suf = Some g"
      by blast
    then have "c # cs = (c # pre) @ suf \<and> match_sow suf = Some g" by simp
    then show ?thesis by blast
  next
    case (Some g')
    with Cons.prems have "match_here (c # cs) = Some g" by simp
    from match_here_Some [OF this] obtain p s1 where "c # cs = p @ s1" "match_sow s1 = Some g"
      by blast
    then show ?thesis by blast
  qed
qed

lemma lower_CHR: "map fold_case (ustr ''CHR_'') = (ustr ''chr_'')"
  by (simp add: fold_case_def ustr_def)

lemma match_literal_CHR_I:
  assumes "map fold_case p = (ustr ''chr_'')"
  shows "match_literal (ustr ''CHR_'') (p @ s) = Some s"
proof -
  have "\<exists>l. p @ s = l @ s \<and> map fold_case l = map fold_case (ustr ''CHR_'')"
    using assms by (intro exI [of _ p]) (simp only: lower_CHR)
  then show ?thesis by (simp only: match_literal_iff)
qed

lemma match_sow_not_CHR:
  assumes "match_sow s = Some g"
  shows "match_literal (ustr ''CHR_'') s = None"
proof -
  from assms obtain s1 where "match_literal (ustr ''SOW'') s = Some s1"
    by (auto simp: match_sow_def split: option.splits)
  then obtain l where l: "s = l @ s1" "map fold_case l = (ustr ''sow'')"
    by (rule match_literal_SOW_E)
  then obtain c l' where "l = c # l'" "fold_case c = 0x73"
    by (cases l) (auto simp: ustr_def)
  with l(1) show ?thesis by (simp add: fold_case_def ustr_def)
qed

lemma match_here_of_match_sow: "match_sow s = Some g \<Longrightarrow> match_here s = Some g"
  by (simp add: match_here_def match_sow_not_CHR)

lemma sow_search_of_match_here: "match_here s = Some g \<Longrightarrow> sow_search s = Some g"
  by (cases s) simp_all

lemma sow_search_accepts:
  assumes "map fold_case l = (ustr ''sow'')" "list_all is_sep seps" "g \<noteq> []" "list_all is_idchar g"
    "rest = [] \<or> \<not> is_idchar (hd rest)"
  shows "sow_search (l @ seps @ g @ rest) = Some g"
    and "map fold_case p = (ustr ''chr_'') \<Longrightarrow> sow_search (p @ l @ seps @ g @ rest) = Some g"
proof -
  let ?s = "l @ seps @ g @ rest"
  have "?s = l @ seps @ g @ rest \<and> map fold_case l = (ustr ''sow'')
        \<and> list_all is_sep seps \<and> g \<noteq> [] \<and> list_all is_idchar g
        \<and> (rest = [] \<or> \<not> is_idchar (hd rest))"
    using assms by (intro conjI refl)
  then have "\<exists>l' seps' rest'. ?s = l' @ seps' @ g @ rest' \<and> map fold_case l' = (ustr ''sow'')
        \<and> list_all is_sep seps' \<and> g \<noteq> [] \<and> list_all is_idchar g
        \<and> (rest' = [] \<or> \<not> is_idchar (hd rest'))"
    by (intro exI)
  then have m: "match_sow ?s = Some g"
    by (simp only: match_sow_Some_iff)
  then show "sow_search ?s = Some g"
    by (intro sow_search_of_match_here match_here_of_match_sow)
  assume "map fold_case p = (ustr ''chr_'')"
  then have "match_literal (ustr ''CHR_'') (p @ ?s) = Some ?s"
    by (rule match_literal_CHR_I)
  with m have "match_here (p @ ?s) = Some g"
    by (simp add: match_here_def)
  then show "sow_search (p @ ?s) = Some g"
    by (rule sow_search_of_match_here)
qed

lemma sow_search_None_grammar:
  "sow_search t = None \<longleftrightarrow>
     \<not> (\<exists>pre l seps c rest. t = pre @ l @ seps @ c # rest \<and> map fold_case l = (ustr ''sow'')
          \<and> list_all is_sep seps \<and> is_idchar c)"
proof
  assume n: "sow_search t = None"
  show "\<not> (\<exists>pre l seps c rest. t = pre @ l @ seps @ c # rest \<and> map fold_case l = (ustr ''sow'')
          \<and> list_all is_sep seps \<and> is_idchar c)"
  proof
    assume "\<exists>pre l seps c rest. t = pre @ l @ seps @ c # rest \<and> map fold_case l = (ustr ''sow'')
          \<and> list_all is_sep seps \<and> is_idchar c"
    then obtain pre l seps c rest where t: "t = pre @ l @ seps @ c # rest"
      and r: "map fold_case l = (ustr ''sow'')" "list_all is_sep seps" "is_idchar c"
      by (elim exE conjE)
    from n [unfolded sow_search_None_iff] t have "match_sow (l @ seps @ c # rest) = None"
      by (elim allE impE)
    from this [unfolded match_sow_None_iff]
    have "\<not> (\<exists>l' seps' c' rest'. l @ seps @ c # rest = l' @ seps' @ c' # rest'
          \<and> map fold_case l' = (ustr ''sow'') \<and> list_all is_sep seps' \<and> is_idchar c')" .
    moreover have "l @ seps @ c # rest = l @ seps @ c # rest
          \<and> map fold_case l = (ustr ''sow'') \<and> list_all is_sep seps \<and> is_idchar c"
      using r by (intro conjI refl)
    then have "\<exists>l' seps' c' rest'. l @ seps @ c # rest = l' @ seps' @ c' # rest'
          \<and> map fold_case l' = (ustr ''sow'') \<and> list_all is_sep seps' \<and> is_idchar c'"
      by (intro exI)
    ultimately show False by (rule notE)
  qed
next
  assume a: "\<not> (\<exists>pre l seps c rest. t = pre @ l @ seps @ c # rest \<and> map fold_case l = (ustr ''sow'')
          \<and> list_all is_sep seps \<and> is_idchar c)"
  have "match_sow suf = None" if t: "t = pre @ suf" for pre suf
  proof (rule ccontr)
    assume "match_sow suf \<noteq> None"
    from this [unfolded match_sow_None_iff not_not]
    have "\<exists>l seps c rest. suf = l @ seps @ c # rest \<and> map fold_case l = (ustr ''sow'')
          \<and> list_all is_sep seps \<and> is_idchar c" .
    then obtain l seps c rest where "suf = l @ seps @ c # rest"
      and r: "map fold_case l = (ustr ''sow'')" "list_all is_sep seps" "is_idchar c"
      by (elim exE conjE)
    with t have "t = pre @ l @ seps @ c # rest \<and> map fold_case l = (ustr ''sow'')
          \<and> list_all is_sep seps \<and> is_idchar c"
      by simp
    then have "\<exists>pre l seps c rest. t = pre @ l @ seps @ c # rest \<and> map fold_case l = (ustr ''sow'')
          \<and> list_all is_sep seps \<and> is_idchar c"
      by (intro exI)
    with a show False by (rule notE)
  qed
  then have "\<forall>pre suf. t = pre @ suf \<longrightarrow> match_sow suf = None"
    by (intro allI impI)
  then show "sow_search t = None"
    by (rule sow_search_None_iff [THEN iffD2])
qed

lemma sow_search_Some_grammar:
  assumes "sow_search t = Some g"
  shows "\<exists>pre l seps rest. t = pre @ l @ seps @ g @ rest \<and> map fold_case l = (ustr ''sow'')
        \<and> list_all is_sep seps \<and> g \<noteq> [] \<and> list_all is_idchar g
        \<and> (rest = [] \<or> \<not> is_idchar (hd rest))"
proof -
  from sow_search_Some [OF assms] obtain pre suf where t: "t = pre @ suf"
    and m: "match_sow suf = Some g" by (elim exE conjE)
  from m [unfolded match_sow_Some_iff] obtain l seps rest where
    "suf = l @ seps @ g @ rest" and r: "map fold_case l = (ustr ''sow'')"
    "list_all is_sep seps" "g \<noteq> []" "list_all is_idchar g"
    "rest = [] \<or> \<not> is_idchar (hd rest)"
    by (elim exE conjE)
  with t have "t = pre @ l @ seps @ g @ rest" by simp
  with r have "t = pre @ l @ seps @ g @ rest \<and> map fold_case l = (ustr ''sow'')
        \<and> list_all is_sep seps \<and> g \<noteq> [] \<and> list_all is_idchar g
        \<and> (rest = [] \<or> \<not> is_idchar (hd rest))"
    by (intro conjI)
  then show ?thesis by (intro exI)
qed

lemma sow_search_same_up_to_case:
  assumes "map fold_case t = map fold_case t'"
  shows "map_option (map fold_case) (sow_search t)
       = map_option (map fold_case) (sow_search t')"
proof -
  have "map_option (map fold_case) (sow_search t) = sow_search (map fold_case t)"
    by (simp only: sow_search_lower)
  also have "\<dots> = sow_search (map fold_case t')" by (simp only: assms)
  also have "\<dots> = map_option (map fold_case) (sow_search t')"
    by (simp only: sow_search_lower)
  finally show ?thesis .
qed

lemma extract_other_documents:
  "other_documents (extract_sows_from_results results)
     = map make_document (filter (\<lambda>r. sow_search (title r) = None) results)"
proof -
  obtain sws other where e: "extract_loop results [] [] = (sws, other)"
    by (cases "extract_loop results [] []")
  with extract_loop_other [of results "[]" "[]"] show ?thesis
    by (simp add: extract_sows_from_results_def)
qed

lemma extract_group_documents:
  "(case map_of (sows (extract_sows_from_results results)) k of
      None \<Rightarrow> [] | Some info \<Rightarrow> documents info)
     = map make_document
         (filter (\<lambda>r. map_option ((@) (ustr ''SOW#'')) (sow_search (title r)) = Some k) results)"
proof -
  obtain sws other where e: "extract_loop results [] [] = (sws, other)"
    by (cases "extract_loop results [] []")
  have d: "distinct (map fst sws)"
    using extract_loop_distinct [of "[]" results "[]"] by (simp add: e)
  from extract_loop_group_docs [of results "[]" "[]" k] show ?thesis
    by (simp add: extract_sows_from_results_def e map_of_sort_key [OF d])
qed

lemma make_document_title: "make_document r = make_document r' \<Longrightarrow> title r = title r'"
proof -
  assume "make_document r = make_document r'"
  then have "doc_title (make_document r) = doc_title (make_document r')" by simp
  then show ?thesis by (simp add: make_document_def)
qed

lemma matched_result_grouped:
  assumes "r \<in> set results" "sow_search (title r) = Some g"
  shows "\<exists>info. map_of (sows (extract_sows_from_results results)) (ustr ''SOW#'' @ g) = Some info
           \<and> make_document r \<in> set (documents info)"
    and "make_document r \<notin> set (other_documents (extract_sows_from_results results))"
proof -
  let ?a = "extract_sows_from_results results"
  let ?k = "ustr ''SOW#'' @ g"
  from assms have "make_document r \<in> set (map make_document
      (filter (\<lambda>r. map_option ((@) (ustr ''SOW#'')) (sow_search (title r)) = Some ?k) results))"
    by simp
  then have m: "make_document r
      \<in> set (case map_of (sows ?a) ?k of None \<Rightarrow> [] | Some info \<Rightarrow> documents info)"
    by (simp only: extract_group_documents)
  show "\<exists>info. map_of (sows ?a) ?k = Some info \<and> make_document r \<in> set (documents info)"
  proof (cases "map_of (sows ?a) ?k")
    case None
    with m show ?thesis by simp
  next
    case (Some info)
    with m show ?thesis by simp
  qed
  show "make_document r \<notin> set (other_documents ?a)"
  proof
    assume "make_document r \<in> set (other_documents ?a)"
    then obtain r' where r': "sow_search (title r') = None" "make_document r = make_document r'"
      unfolding extract_other_documents by auto
    from make_document_title [OF r'(2)] r'(1) assms(2) show False by simp
  qed
qed

lemma unmatched_result_other:
  assumes "r \<in> set results" "sow_search (title r) = None"
  shows "make_document r \<in> set (other_documents (extract_sows_from_results results))"
    and "make_document r
      \<notin> set (case map_of (sows (extract_sows_from_results results)) k of
                None \<Rightarrow> [] | Some info \<Rightarrow> documents info)"
proof -
  from assms show "make_document r \<in> set (other_documents (extract_sows_from_results results))"
    unfolding extract_other_documents by simp
  show "make_document r
      \<notin> set (case map_of (sows (extract_sows_from_results results)) k of
                None \<Rightarrow> [] | Some info \<Rightarrow> documents info)"
  proof
    assume "make_document r
      \<in> set (case map_of (sows (extract_sows_from_results results)) k of
                None \<Rightarrow> [] | Some info \<Rightarrow> documents info)"
    then obtain r' where r': "sow_search (title r') \<noteq> None" "make_document r = make_document r'"
      unfolding extract_group_documents by auto
    from make_document_title [OF r'(2)] r'(1) assms(2) show False by simp
  qed
qed

text \<open>
  C3 (amended). Titles are arbitrary strings of Unicode code points. The match is
  case-insensitive: titles whose code points agree up to the case of the pattern's
  letters have matches that agree up to that case. A title matches exactly when it
  contains, at some position, the label \<open>SOW\<close> in any case (the long s, U+017F,
  counts as an \<open>S\<close>), then any number of separators (\<open>_\<close>, Unicode white space,
  \<open>#\<close>), then an identifier character; the identifier characters are the digits and
  \<open>X\<close> or \<open>x\<close>, and no other letter. The identifier captured is a maximal non-empty
  run of identifier characters after the separators. The prefix \<open>CHR_\<close> is optional:
  the same identifier is found with and without it. In any list of results, a result
  whose title matches is in the group \<open>SOW#\<close> followed by the identifier and not in
  \<open>other_documents\<close>; a result whose title does not match, for instance because only
  letters other than \<open>X\<close> follow the label, is in \<open>other_documents\<close> and in no group.
\<close>

theorem sow_pattern_digits_and_X_only:
  "(map fold_case t = map fold_case t' \<longrightarrow>
      map_option (map fold_case) (sow_search t) = map_option (map fold_case) (sow_search t'))
   \<and> (sow_search t = None \<longleftrightarrow>
        \<not> (\<exists>pre l seps c rest. t = pre @ l @ seps @ c # rest
             \<and> map fold_case l = ustr ''sow'' \<and> list_all is_sep seps \<and> is_idchar c))
   \<and> (sow_search t = Some g \<longrightarrow>
        (\<exists>pre l seps rest. t = pre @ l @ seps @ g @ rest \<and> map fold_case l = ustr ''sow''
           \<and> list_all is_sep seps \<and> g \<noteq> [] \<and> list_all is_idchar g
           \<and> (rest = [] \<or> \<not> is_idchar (hd rest))))
   \<and> (map fold_case l = ustr ''sow'' \<and> list_all is_sep seps \<and> g \<noteq> []
        \<and> list_all is_idchar g \<and> (rest = [] \<or> \<not> is_idchar (hd rest))
        \<and> map fold_case p = ustr ''chr_'' \<longrightarrow>
        sow_search (l @ seps @ g @ rest) = Some g
        \<and> sow_search (p @ l @ seps @ g @ rest) = Some g)
   \<and> (is_idchar c \<longleftrightarrow> c \<in> set (ustr ''0123456789Xx''))
   \<and> (r \<in> set results \<and> sow_search (title r) = Some g \<longrightarrow>
        (\<exists>info. map_of (sows (extract_sows_from_results results)) (ustr ''SOW#'' @ g)
                   = Some info
                 \<and> make_document r \<in> set (documents info))
        \<and> make_document r \<notin> set (other_documents (extract_sows_from_results results)))
   \<and> (r \<in> set results \<and> sow_search (title r) = None \<longrightarrow>
        make_document r \<in> set (other_documents (extract_sows_from_results results))
        \<and> make_document r
            \<notin> set (case map_of (sows (extract_sows_from_results results)) k of
                      None \<Rightarrow> [] | Some info \<Rightarrow> documents info))"
proof (intro conjI impI)
  assume "map fold_case t = map fold_case t'"
  then show "map_option (map fold_case) (sow_search t)
      = map_option (map fold_case) (sow_search t')"
    by (rule sow_search_same_up_to_case)
next
  show "sow_search t = None \<longleftrightarrow>
        \<not> (\<exists>pre l seps c rest. t = pre @ l @ seps @ c # rest
             \<and> map fold_case l = ustr ''sow'' \<and> list_all is_sep seps \<and> is_idchar c)"
    by (rule sow_search_None_grammar)
next
  assume "sow_search t = Some g"
  then show "\<exists>pre l seps rest. t = pre @ l @ seps @ g @ rest \<and> map fold_case l = ustr ''sow''
           \<and> list_all is_sep seps \<and> g \<noteq> [] \<and> list_all is_idchar g
           \<and> (rest = [] \<or> \<not> is_idchar (hd rest))"
    by (rule sow_search_Some_grammar)
next
  assume a: "map fold_case l = ustr ''sow'' \<and> list_all is_sep seps \<and> g \<noteq> []
        \<and> list_all is_idchar g \<and> (rest = [] \<or> \<not> is_idchar (hd rest))
        \<and> map fold_case p = ustr ''chr_''"
  then show "sow_search (l @ seps @ g @ rest) = Some g"
    by (intro sow_search_accepts(1)) simp_all
  from a show "sow_search (p @ l @ seps @ g @ rest) = Some g"
    by (intro sow_search_accepts(2)) simp_all
next
  show "is_idchar c \<longleftrightarrow> c \<in> set (ustr ''0123456789Xx'')"
    by (rule is_idchar_chars)
next
  assume a: "r \<in> set results \<and> sow_search (title r) = Some g"
  then show "\<exists>info. map_of (sows (extract_sows_from_results results)) (ustr ''SOW#'' @ g)
                   = Some info
                 \<and> make_document r \<in> set (documents info)"
    by (intro matched_result_grouped(1)) simp_all
  from a show "make_document r \<notin> set (other_documents (extract_sows_from_results results))"
    by (intro matched_result_grouped(2) [of r results g]) simp_all
next
  assume a: "r \<in> set results \<and> sow_search (title r) = None"
  then show "make_document r \<in> set (other_documents (extract_sows_from_results results))"
    by (intro unmatched_result_other(1)) simp_all
  from a show "make_document r
            \<notin> set (case map_of (sows (extract_sows_from_results results)) k of
                      None \<Rightarrow> [] | Some info \<Rightarrow> documents info)"
    by (intro unmatched_result_other(2)) simp_all
qed

theorem sow_pattern_digits_and_X_only_witness:
  "sow_search (ustr ''sow'' @ ustr '' #'' @ ustr ''12x'' @ ustr '' Plan'') = Some (ustr ''12x'')
   \<and> sow_search (ustr ''chr_'' @ ustr ''sow'' @ ustr '' #'' @ ustr ''12x'' @ ustr '' Plan'')
      = Some (ustr ''12x'')
   \<and> sow_search ([0x17F, 0x6F, 0x77] @ [0x2003] @ ustr ''7'' @ []) = Some (ustr ''7'')
   \<and> (\<exists>info. map_of (sows (extract_sows_from_results
          [\<lparr>title = ustr ''sow'' @ ustr '' #'' @ ustr ''12x'' @ ustr '' Plan'',
            content = ustr ''c'', uri = None, score = None\<rparr>])) (ustr ''SOW#'' @ ustr ''12x'')
        = Some info
        \<and> make_document
            \<lparr>title = ustr ''sow'' @ ustr '' #'' @ ustr ''12x'' @ ustr '' Plan'',
              content = ustr ''c'', uri = None, score = None\<rparr> \<in> set (documents info))"
proof -
  have h: "map fold_case (ustr ''sow'') = ustr ''sow'' \<and> list_all is_sep (ustr '' #'')
      \<and> ustr ''12x'' \<noteq> [] \<and> list_all is_idchar (ustr ''12x'')
      \<and> (ustr '' Plan'' = [] \<or> \<not> is_idchar (hd (ustr '' Plan'')))
      \<and> map fold_case (ustr ''chr_'') = ustr ''chr_''"
    by (simp add: ustr_def fold_case_def is_sep_def is_space_def is_idchar_def)
  have s: "sow_search (ustr ''sow'' @ ustr '' #'' @ ustr ''12x'' @ ustr '' Plan'')
        = Some (ustr ''12x'')
      \<and> sow_search (ustr ''chr_'' @ ustr ''sow'' @ ustr '' #'' @ ustr ''12x'' @ ustr '' Plan'')
        = Some (ustr ''12x'')"
    by (rule sow_pattern_digits_and_X_only
        [where l = "ustr ''sow''" and seps = "ustr '' #''" and g = "ustr ''12x''"
           and rest = "ustr '' Plan''" and p = "ustr ''chr_''",
         THEN conjunct2, THEN conjunct2, THEN conjunct2, THEN conjunct1, THEN mp, OF h])
  have h': "map fold_case [0x17F, 0x6F, 0x77] = ustr ''sow'' \<and> list_all is_sep [0x2003]
      \<and> ustr ''7'' \<noteq> [] \<and> list_all is_idchar (ustr ''7'')
      \<and> ([] = [] \<or> \<not> is_idchar (hd []))
      \<and> map fold_case (ustr ''chr_'') = ustr ''chr_''"
    by (simp add: ustr_def fold_case_def is_sep_def is_space_def is_idchar_def)
  have u: "sow_search ([0x17F, 0x6F, 0x77] @ [0x2003] @ ustr ''7'' @ []) = Some (ustr ''7'')"
    by (rule sow_pattern_digits_and_X_only
        [where l = "[0x17F, 0x6F, 0x77]" and seps = "[0x2003]" and g = "ustr ''7''"
           and rest = "[]" and p = "ustr ''chr_''",
         THEN conjunct2, THEN conjunct2, THEN conjunct2, THEN conjunct1, THEN mp, OF h',
         THEN conjunct1])
  let ?r = "\<lparr>title = ustr ''sow'' @ ustr '' #'' @ ustr ''12x'' @ ustr '' Plan'',
             content = ustr ''c'', uri = None, score = None\<rparr>"
  from s have t: "?r \<in> set [?r] \<and> sow_search (title ?r) = Some (ustr ''12x'')"
    by (simp del: sow_search.simps)
  have e: "\<exists>info. map_of (sows (extract_sows_from_results [?r])) (ustr ''SOW#'' @ ustr ''12x'')
        = Some info \<and> make_document ?r \<in> set (documents info)"
    by (rule sow_pattern_digits_and_X_only
        [where r = ?r and g = "ustr ''12x''" and results = "[?r]",
         THEN conjunct2, THEN conjunct2, THEN conjunct2, THEN conjunct2, THEN conjunct2,
         THEN conjunct1, THEN mp, OF t, THEN conjunct1])
  from s u e show ?thesis by (intro conjI) (erule conjunct1, erule conjunct2)
qed

theorem sow_letters_identifier_counterexample:
  "sow_search (ustr ''SOW#ABC'') = None
   \<and> extract_sows_from_results
        [\<lparr>title = ustr ''SOW#ABC'', content = ustr ''c'', uri = None, score = None\<rparr>]
      = \<lparr>total_sows = 0, sows = [],
         other_documents = [\<lparr>doc_title = ustr ''SOW#ABC'', link = None,
                              doc_content = ustr ''c'', doc_score = None\<rparr>],
         total_documents = 1\<rparr>"
proof -
  have s: "sow_search (ustr ''SOW#ABC'') = None"
    by (simp add: ustr_def match_here_def match_sow_def fold_case_def is_sep_def is_space_def
      is_idchar_def)
  have l: "length (ustr ''c'') = 1" by (simp add: ustr_def)
  from s show ?thesis
    by (simp del: sow_search.simps
        add: l extract_sows_from_results_def make_document_def content_preview_def)
qed

end
